theory Spec2Isabelle
  imports Complex_Main "HOL-Library.Multiset"
begin

section \<open>Board and piece data\<close>

text \<open>
  The game keeps its playfield in the module-level array \<open>arena\<close>, created once by
  \<open>createMatrix(COLS, ROWS)\<close>: \<open>ROWS\<close> rows of \<open>COLS\<close> numbers, \<open>0\<close> for an empty cell
  and the piece identifier \<open>1..7\<close> for a filled one. A piece shape is a small matrix of the
  same kind of numbers. Both are lists of rows here. JavaScript tests cells for
  truthiness (\<open>!matrix[y][x]\<close>, \<open>arena[ay][ax]\<close>); on numbers that is the test against \<open>0\<close>.
\<close>

type_synonym row = "nat list"
type_synonym grid = "row list"

definition COLS :: nat where
  "COLS = 12"

definition ROWS :: nat where
  "ROWS = 20"

definition createMatrix :: "nat \<Rightarrow> nat \<Rightarrow> grid" where
  "createMatrix w h = replicate h (replicate w 0)"

text \<open>
  The arena always has \<open>ROWS\<close> rows of \<open>COLS\<close> cells: it is created so, and every function
  that changes it keeps the dimensions (shown below for merging, sweeping and resetting).
  The reads and writes \<open>arena[ay][ax]\<close> of the source happen under its own bounds checks
  against \<open>COLS\<close> and \<open>ROWS\<close>, so on such an arena they never leave the array. What
  JavaScript does on an arena of other dimensions (an \<open>undefined\<close> cell, a row that grows)
  is outside the model; the theorems that read or write cells assume \<open>wf_arena\<close>.
\<close>

definition wf_arena :: "grid \<Rightarrow> bool" where
  "wf_arena a = (length a = ROWS \<and> list_all (\<lambda>r. length r = COLS) a)"

section \<open>Collision\<close>

text \<open>
  \<open>collide(arena, playerX, playerY, matrix)\<close>: two nested index loops over the shape with
  an early \<open>return true\<close>. \<open>collide_row\<close> is the inner loop over the remaining cells of
  shape row \<open>y\<close> from column \<open>x\<close> on, \<open>collide_rows\<close> the outer loop from row \<open>y\<close> on.
\<close>

fun collide_row :: "grid \<Rightarrow> int \<Rightarrow> int \<Rightarrow> nat \<Rightarrow> nat \<Rightarrow> row \<Rightarrow> bool" where
  "collide_row a playerX playerY y x [] = False"
| "collide_row a playerX playerY y x (v # vs) =
     (if v = 0 then collide_row a playerX playerY y (Suc x) vs
      else
        let ax = int x + playerX; ay = int y + playerY in
        if ax < 0 \<or> ax \<ge> int COLS \<or> ay \<ge> int ROWS then True
        else if ay \<ge> 0 \<and> a ! nat ay ! nat ax \<noteq> 0 then True
        else collide_row a playerX playerY y (Suc x) vs)"

fun collide_rows :: "grid \<Rightarrow> int \<Rightarrow> int \<Rightarrow> nat \<Rightarrow> grid \<Rightarrow> bool" where
  "collide_rows a playerX playerY y [] = False"
| "collide_rows a playerX playerY y (r # rs) =
     (if collide_row a playerX playerY y 0 r then True
      else collide_rows a playerX playerY (Suc y) rs)"

definition collide :: "grid \<Rightarrow> int \<Rightarrow> int \<Rightarrow> grid \<Rightarrow> bool" where
  "collide a playerX playerY matrix = collide_rows a playerX playerY 0 matrix"

section \<open>Pieces\<close>

text \<open>The seven piece kinds, the strings \<open>"I" "L" "J" "O" "T" "S" "Z"\<close> of the source.\<close>

datatype kind = KI | KL | KJ | KO | KT | KS | KZ

fun createPiece :: "kind \<Rightarrow> grid" where
  "createPiece KT = [[0,1,0],[1,1,1],[0,0,0]]"
| "createPiece KO = [[1,1],[1,1]]"
| "createPiece KL = [[0,0,1],[1,1,1],[0,0,0]]"
| "createPiece KJ = [[1,0,0],[1,1,1],[0,0,0]]"
| "createPiece KI = [[0,0,0,0],[1,1,1,1],[0,0,0,0],[0,0,0,0]]"
| "createPiece KS = [[0,1,1],[1,1,0],[0,0,0]]"
| "createPiece KZ = [[1,1,0],[0,1,1],[0,0,0]]"

fun PIECE_IDS :: "kind \<Rightarrow> nat" where
  "PIECE_IDS KI = 1"
| "PIECE_IDS KO = 2"
| "PIECE_IDS KT = 3"
| "PIECE_IDS KS = 4"
| "PIECE_IDS KZ = 5"
| "PIECE_IDS KJ = 6"
| "PIECE_IDS KL = 7"

section \<open>Game state\<close>

text \<open>
  The module-level variables of the game as one record. \<open>player.pos.y\<close> only ever takes
  whole values (it is set to \<open>-1\<close> and changed by whole steps), so it is an integer and
  the \<open>Math.floor\<close> and \<open>Math.round\<close> applied to it are the identity. Times are
  milliseconds. \<open>random_source\<close> lists the values that successive calls of
  \<open>Math.random()\<close> return and \<open>random_count\<close> counts the calls made so far.
  \<open>timeouts\<close> holds the delays of the \<open>setTimeout(resetGame, _)\<close> callbacks that are
  scheduled and have not run yet. Drawing and sound do not touch this state and are
  left out.
\<close>

record game =
  arena :: grid
  pos_x :: int
  pos_y :: int
  matrix :: "grid option"
  player_id :: nat
  nextQueue :: "kind list"
  bag :: "kind list option"
  bag_index :: nat
  holdPiece :: "kind option"
  holdUsed :: bool
  score :: nat
  level :: nat
  lines :: nat
  highscore :: nat
  gameOver :: bool
  paused :: bool
  lockTimer :: real
  onGround :: bool
  dropAccumulator :: real
  lastTime :: real
  gravityCPS :: real
  soft :: bool
  das_left :: bool
  das_right :: bool
  das_nextMoveAt :: real
  random_source :: "nat \<Rightarrow> real"
  random_count :: nat
  timeouts :: "real list"

section \<open>Merge\<close>

text \<open>
  \<open>mergeToArena()\<close>: for every occupied shape cell, \<open>arena[ay][ax] = player.matrix[y][x]\<close>
  when \<open>0 \<le> ay < ROWS\<close> and \<open>0 \<le> ax < COLS\<close>. \<open>merge_row\<close> is the inner loop,
  \<open>merge_rows\<close> the outer one. With \<open>player.matrix\<close> still \<open>null\<close> the source raises a
  TypeError, the value \<open>None\<close> here.
\<close>

fun merge_row :: "grid \<Rightarrow> int \<Rightarrow> int \<Rightarrow> nat \<Rightarrow> nat \<Rightarrow> row \<Rightarrow> grid" where
  "merge_row a px py y x [] = a"
| "merge_row a px py y x (v # vs) =
     (if v = 0 then merge_row a px py y (Suc x) vs
      else
        let ax = int x + px; ay = int y + py in
        if ay \<ge> 0 \<and> ay < int ROWS \<and> ax \<ge> 0 \<and> ax < int COLS
        then merge_row (a[nat ay := (a ! nat ay)[nat ax := v]]) px py y (Suc x) vs
        else merge_row a px py y (Suc x) vs)"

fun merge_rows :: "grid \<Rightarrow> int \<Rightarrow> int \<Rightarrow> nat \<Rightarrow> grid \<Rightarrow> grid" where
  "merge_rows a px py y [] = a"
| "merge_rows a px py y (r # rs) = merge_rows (merge_row a px py y 0 r) px py (Suc y) rs"

definition mergeToArena :: "game \<Rightarrow> game option" where
  "mergeToArena s =
     (case matrix s of
        None \<Rightarrow> None
      | Some m \<Rightarrow> Some (s\<lparr>arena := merge_rows (arena s) (pos_x s) (pos_y s) 0 m\<rparr>))"

text \<open>
  The value that the shape \<open>m\<close>, placed at \<open>(px, py)\<close>, puts on board cell \<open>(r, c)\<close>:
  the shape cell at \<open>(r - py, c - px)\<close> when the shape has one there, else \<open>0\<close>.
\<close>

definition shape_at :: "grid \<Rightarrow> int \<Rightarrow> int \<Rightarrow> nat \<Rightarrow> nat \<Rightarrow> nat" where
  "shape_at m px py r c =
     (let y = int r - py; x = int c - px in
      if 0 \<le> y \<and> nat y < length m \<and> 0 \<le> x \<and> nat x < length (m ! nat y)
      then m ! nat y ! nat x else 0)"

section \<open>Sweep and score\<close>

text \<open>
  \<open>sweep()\<close>. The inner loop of the source leaves for the next row at the first cell that
  is \<open>=== 0\<close>, so a row is cleared when none of its first \<open>COLS\<close> cells is \<open>0\<close>
  (\<open>row_full\<close>). The outer loop runs \<open>y\<close> from \<open>ROWS - 1\<close> down to \<open>0\<close>; after a
  clear (\<open>splice(y, 1)\<close>, \<open>unshift\<close> of a new row of zeros, \<open>cleared++\<close>) the \<open>y++\<close>
  cancels the \<open>--y\<close> of the loop, so the same index is looked at again. Reading
  \<open>arena[y][x]\<close> for a row index beyond the array raises a TypeError, the value \<open>None\<close>.
\<close>

definition row_full :: "row \<Rightarrow> bool" where
  "row_full r = list_all (\<lambda>x. r ! x \<noteq> 0) [0..<COLS]"

function sweep_loop :: "grid \<Rightarrow> int \<Rightarrow> nat \<Rightarrow> (grid \<times> nat) option" where
  "sweep_loop a y cleared =
     (if y < 0 then Some (a, cleared)
      else if nat y \<ge> length a then None
      else if row_full (a ! nat y)
        then sweep_loop (replicate COLS 0 # (take (nat y) a @ drop (Suc (nat y)) a)) y (cleared + 1)
        else sweep_loop a (y - 1) cleared)"
  by pat_completeness auto

termination sweep_loop
proof (relation "measure (\<lambda>(a, y, c). nat (y + 1) + length (filter row_full (take (nat y + 1) a)))",
    goal_cases)
  case 1
  show ?case by simp
next
  case (2 a y cleared)
  then have y: "nat y < length a" "row_full (a ! nat y)" by simp_all
  have fresh: "\<not> row_full (replicate COLS 0)"
    by code_simp
  have "take (nat y + 1) (replicate COLS 0 # (take (nat y) a @ drop (Suc (nat y)) a))
        = replicate COLS 0 # take (nat y) a"
    using y(1) by simp
  moreover have "length (filter row_full (take (Suc (nat y)) a))
        = Suc (length (filter row_full (take (nat y) a)))"
    using y by (simp add: take_Suc_conv_app_nth)
  ultimately show ?case
    using fresh y(1) by simp
next
  case (3 a y cleared)
  then have y: "0 \<le> y" "nat y < length a" by simp_all
  show ?case
  proof (cases "y = 0")
    case True
    then show ?thesis by simp
  next
    case False
    with y have "nat (y - 1 + 1) = nat y" "nat (y - 1) + 1 = nat y" "nat (y + 1) = Suc (nat y)"
      by simp_all
    moreover have "length (filter row_full (take (nat y) a))
        \<le> length (filter row_full (take (Suc (nat y)) a))"
      using y(2) by (simp add: take_Suc_conv_app_nth)
    ultimately show ?thesis by simp
  qed
qed

declare sweep_loop.simps [simp del]

text \<open>The score table \<open>lineScores\<close> with the source's \<open>lineScores[cleared] || 0\<close>.\<close>

definition lineScores :: "nat list" where
  "lineScores = [0, 40, 100, 300, 1200]"

definition line_score :: "nat \<Rightarrow> nat" where
  "line_score cleared = (if cleared < length lineScores then lineScores ! cleared else 0)"

text \<open>
  The source keeps the number of cleared rows in the local variable \<open>cleared\<close> and uses
  it for the score in the same function; \<open>sweep_loop\<close> hands it over as its second result.
\<close>

definition sweep :: "game \<Rightarrow> game option" where
  "sweep s =
     (case sweep_loop (arena s) (int ROWS - 1) 0 of
        None \<Rightarrow> None
      | Some (a, cleared) \<Rightarrow>
          let s1 = s\<lparr>arena := a\<rparr> in
          if cleared > 0 then
            let s2 = s1\<lparr>score := score s1 + line_score cleared * (level s1 + 1)\<rparr>;
                s3 = s2\<lparr>lines := lines s2 + cleared\<rparr>;
                s4 = s3\<lparr>level := lines s3 div 10\<rparr>
            in Some (if score s4 > highscore s4 then s4\<lparr>highscore := score s4\<rparr> else s4)
          else Some s1)"

text \<open>
  \<open>sweep()\<close> has no \<open>return\<close> statement: where the call returns, its value is
  \<open>undefined\<close>, whatever the counter is.
\<close>

datatype js_value = Undefined | Number nat

definition sweep_value :: "game \<Rightarrow> js_value option" where
  "sweep_value s = (case sweep s of None \<Rightarrow> None | Some s' \<Rightarrow> Some Undefined)"

text \<open>
  The shape matrix of a spawned piece holds the piece identifier in its occupied cells
  and \<open>0\<close> elsewhere (\<open>spawnPlayer\<close> stamps it so).
\<close>

definition stamped :: "grid \<Rightarrow> nat \<Rightarrow> bool" where
  "stamped m i = list_all (list_all (\<lambda>v. v = 0 \<or> v = i)) m"

section \<open>Initial state\<close>

text \<open>
  The values the module-level variables are initialised with, before \<open>init()\<close> runs;
  the stored high score and the random source come from outside.
\<close>

definition initial_game :: "nat \<Rightarrow> (nat \<Rightarrow> real) \<Rightarrow> game" where
  "initial_game hs rnd =
     \<lparr> arena = createMatrix COLS ROWS, pos_x = 0, pos_y = 0, matrix = None, player_id = 0,
       nextQueue = [], bag = None, bag_index = 0, holdPiece = None, holdUsed = False,
       score = 0, level = 0, lines = 0, highscore = hs, gameOver = False, paused = False,
       lockTimer = 0, onGround = False, dropAccumulator = 0, lastTime = 0, gravityCPS = 1,
       soft = False, das_left = False, das_right = False, das_nextMoveAt = 0,
       random_source = rnd, random_count = 0, timeouts = [] \<rparr>"

section \<open>Rotation\<close>

text \<open>
  \<open>rotateMatrix(matrix, dir)\<close> works in place. The destructuring assignment
  \<open>[matrix[x][y], matrix[y][x]] = [matrix[y][x], matrix[x][y]]\<close> reads both cells first
  and then writes \<open>matrix[x][y]\<close> and \<open>matrix[y][x]\<close> in this order (\<open>swap_cells\<close>). The
  two loops run \<open>y\<close> over \<open>0..<matrix.length\<close> and \<open>x\<close> over \<open>0..<y\<close>. Then
  every row is reversed for \<open>dir > 0\<close>, and the list of rows otherwise. The shape
  matrices are square; on a matrix with a row shorter than the number of rows the writes
  of the source would grow that row, which is not modelled.
\<close>

definition swap_cells :: "grid \<Rightarrow> nat \<Rightarrow> nat \<Rightarrow> grid" where
  "swap_cells m x y =
     (let v1 = m ! y ! x; v2 = m ! x ! y;
          m1 = m[x := (m ! x)[y := v1]]
      in m1[y := (m1 ! y)[x := v2]])"

definition transpose_row :: "grid \<Rightarrow> nat \<Rightarrow> grid" where
  "transpose_row m y = foldl (\<lambda>m' x. swap_cells m' x y) m [0..<y]"

definition transpose_in_place :: "grid \<Rightarrow> grid" where
  "transpose_in_place m = foldl transpose_row m [0..<length m]"

definition rotateMatrix :: "grid \<Rightarrow> int \<Rightarrow> grid" where
  "rotateMatrix m dir =
     (let t = transpose_in_place m in if dir > 0 then map rev t else rev t)"

definition square :: "grid \<Rightarrow> bool" where
  "square m = list_all (\<lambda>r. length r = length m) m"

section \<open>Randomizer and lookahead queue\<close>

text \<open>
  \<open>shuffleBag()\<close>: Fisher-Yates on \<open>"ILJOTSZ".split('')\<close>, for \<open>i\<close> from
  \<open>bag.length - 1\<close> down to \<open>1\<close> with \<open>j = Math.floor(Math.random() * (i + 1))\<close> and the
  swap \<open>[bag[i], bag[j]] = [bag[j], bag[i]]\<close>. In \<open>shuffle_loop rnd k b (Suc i)\<close> the
  loop index of the source is \<open>Suc i\<close>, and \<open>k\<close> counts the calls of \<open>Math.random()\<close>.
  \<open>Math.random()\<close> returns a number in \<open>[0, 1)\<close>, so \<open>j \<le> i\<close>; this is \<open>random_ok\<close>.
\<close>

definition random_ok :: "(nat \<Rightarrow> real) \<Rightarrow> bool" where
  "random_ok rnd = (\<forall>k. 0 \<le> rnd k \<and> rnd k < 1)"

definition all_kinds :: "kind list" where
  "all_kinds = [KI, KL, KJ, KO, KT, KS, KZ]"

fun shuffle_loop :: "(nat \<Rightarrow> real) \<Rightarrow> nat \<Rightarrow> kind list \<Rightarrow> nat \<Rightarrow> kind list \<times> nat" where
  "shuffle_loop rnd k b 0 = (b, k)"
| "shuffle_loop rnd k b (Suc i) =
     (let j = nat \<lfloor>rnd k * (real (Suc i) + 1)\<rfloor>
      in shuffle_loop rnd (Suc k) (b[Suc i := b ! j, j := b ! Suc i]) i)"

definition shuffleBag :: "game \<Rightarrow> kind list \<times> game" where
  "shuffleBag s =
     (let (b, k) = shuffle_loop (random_source s) (random_count s) all_kinds (length all_kinds - 1)
      in (b, s\<lparr>random_count := k\<rparr>))"

definition QUEUE_SIZE :: nat where
  "QUEUE_SIZE = 5"

text \<open>
  The file declares \<open>refillQueue\<close> twice at top level. The first declaration (lines
  212-220) has the loop that fills the queue: \<open>bag_draw\<close> is one round of that loop, one
  draw from the randomizer (a new bag when there is none or the index has reached its
  end, then \<open>nextQueue.push(refillQueue.bag[refillQueue.index++])\<close>), and
  \<open>refillQueue_first\<close> is the loop. The second declaration (line 726) has an empty body
  and the comment "overwritten earlier; kept for linter safety". Both are function
  declarations of one script, so the name is bound to the later one before the first
  statement runs, and nothing assigns to it afterwards (\<open>finalizeSetup\<close> assigns
  \<open>spawnPlayer\<close> only). Every call \<open>refillQueue()\<close> of the program therefore runs the
  empty body and leaves the queue as it is: this is \<open>refillQueue\<close>.
\<close>

definition bag_draw :: "game \<Rightarrow> game" where
  "bag_draw s =
     (let fresh = (let (b, s') = shuffleBag s in (b, 0, s'));
          (b, i, s1) = (case bag s of
                          None \<Rightarrow> fresh
                        | Some b \<Rightarrow> if bag_index s \<ge> length b then fresh else (b, bag_index s, s))
      in s1\<lparr>bag := Some b, bag_index := i + 1, nextQueue := nextQueue s1 @ [b ! i]\<rparr>)"

function refillQueue_first :: "game \<Rightarrow> game" where
  "refillQueue_first s =
     (if length (nextQueue s) < QUEUE_SIZE then refillQueue_first (bag_draw s) else s)"
  by pat_completeness auto
termination
proof (relation "measure (\<lambda>s. QUEUE_SIZE - length (nextQueue s))", goal_cases)
  case 1
  show ?case by simp
next
  case (2 s)
  have "length (nextQueue (bag_draw s)) = Suc (length (nextQueue s))"
    by (simp add: bag_draw_def shuffleBag_def Let_def split: prod.splits option.splits)
  with 2 show ?case by simp
qed

declare refillQueue_first.simps [simp del]

definition refillQueue :: "game \<Rightarrow> game" where
  "refillQueue s = s"

section \<open>Player lifecycle\<close>

text \<open>
  A call that throws leaves the module-level variables as they are at that point, and the
  statements after it do not run. The functions below that can throw give an \<open>outcome\<close>:
  \<open>Returns s\<close> when the call returns with the variables \<open>s\<close>, \<open>Raises s\<close> when it throws
  a TypeError with the variables \<open>s\<close>.
\<close>

datatype outcome = Returns game | Raises game

text \<open>
  \<open>spawnPlayer\<close> as assigned in \<open>finalizeSetup\<close> (lines 736-760), which replaces the
  declarations of lines 315 and 718 before \<open>init()\<close> runs. On an empty queue
  \<open>nextQueue.shift()\<close> is \<open>undefined\<close>, \<open>createPiece(undefined)\<close> is \<open>null\<close>, and the
  head \<open>matrix.length\<close> of the stamping loop throws before any variable of the game is
  written. \<open>setTimeout(resetGame, 800)\<close> adds its delay to \<open>timeouts\<close>.
\<close>

definition GAME_OVER_DWELL :: real where
  "GAME_OVER_DWELL = 800"

definition spawnPlayer :: "game \<Rightarrow> outcome" where
  "spawnPlayer s =
     (let s1 = refillQueue s in
      case nextQueue s1 of
        [] \<Rightarrow> Raises (refillQueue s1)
      | type # rest \<Rightarrow>
          let s2 = refillQueue (s1\<lparr>nextQueue := rest\<rparr>);
              i = (if PIECE_IDS type = 0 then 1 else PIECE_IDS type);
              m = map (map (\<lambda>v. if v \<noteq> 0 then i else v)) (createPiece type);
              s3 = s2\<lparr>matrix := Some m, player_id := i,
                      pos_x := int (COLS div 2) - int (length (m ! 0) div 2), pos_y := - 1,
                      holdUsed := False, lockTimer := 0, onGround := False\<rparr>
          in if collide (arena s3) (pos_x s3) (pos_y s3) m
             then Returns (s3\<lparr>gameOver := True, timeouts := timeouts s3 @ [GAME_OVER_DWELL]\<rparr>)
             else Returns s3)"

text \<open>\<open>resetGame()\<close>, and the scheduled callback that calls it when its delay has passed.\<close>

definition resetGame :: "game \<Rightarrow> outcome" where
  "resetGame s =
     (let s1 = s\<lparr>arena := map (\<lambda>r. replicate (length r) 0) (arena s)\<rparr>;
          s2 = refillQueue (s1\<lparr>nextQueue := [], bag := None, bag_index := 0\<rparr>);
          s3 = s2\<lparr>score := 0, lines := 0, level := 0, holdPiece := None, holdUsed := False,
                  gameOver := False\<rparr>
      in spawnPlayer s3)"

definition run_timeout :: "game \<Rightarrow> outcome" where
  "run_timeout s =
     (case timeouts s of
        [] \<Rightarrow> Returns s
      | d # ds \<Rightarrow> resetGame (s\<lparr>timeouts := ds\<rparr>))"

text \<open>
  \<open>init()\<close>, the last statement of the script; \<open>now\<close> is the value of
  \<open>performance.now()\<close>. The request for the first frame follows the spawn, so it is made
  only when the spawn returns.
\<close>

definition init :: "game \<Rightarrow> real \<Rightarrow> outcome" where
  "init s now =
     (case spawnPlayer (refillQueue (s\<lparr>bag := None, bag_index := 0\<rparr>)) of
        Raises s1 \<Rightarrow> Raises s1
      | Returns s1 \<Rightarrow> Returns (s1\<lparr>lastTime := now\<rparr>))"

text \<open>
  \<open>holdSwap()\<close>. \<open>kind_of_id i\<close> is
  \<open>Object.keys(PIECE_IDS)[Object.values(PIECE_IDS).indexOf(i)]\<close>, which is \<open>undefined\<close>
  when no kind has the identifier \<open>i\<close>. The branch that swaps with the held kind writes
  the shape, the identifier and the position, and neither the lock timer nor the ground
  flag.
\<close>

definition kind_of_id :: "nat \<Rightarrow> kind option" where
  "kind_of_id i = find (\<lambda>k. PIECE_IDS k = i) [KI, KO, KT, KS, KZ, KJ, KL]"

definition holdSwap :: "game \<Rightarrow> outcome" where
  "holdSwap s =
     (case matrix s of
        None \<Rightarrow> Returns s
      | Some old \<Rightarrow>
          if holdUsed s \<or> gameOver s \<or> paused s then Returns s
          else
            (case holdPiece s of
               None \<Rightarrow>
                 (case spawnPlayer (s\<lparr>holdPiece := kind_of_id (player_id s)\<rparr>) of
                    Raises s1 \<Rightarrow> Raises s1
                  | Returns s1 \<Rightarrow> Returns (s1\<lparr>holdUsed := True\<rparr>))
             | Some holdType \<Rightarrow>
                 let i = PIECE_IDS holdType;
                     m = map (map (\<lambda>v. if v \<noteq> 0 then i else v)) (createPiece holdType)
                 in Returns (s\<lparr>holdPiece := kind_of_id (player_id s), matrix := Some m,
                              player_id := i,
                              pos_x := int (COLS div 2) - int (length (m ! 0) div 2),
                              pos_y := - 1, holdUsed := True\<rparr>)))"

section \<open>Wall kicks\<close>

text \<open>
  \<open>rotatePlayer(dir)\<close>. \<open>kick_loop\<close> is the loop over \<open>kicks\<close>; its first result tells
  whether it left through the \<open>return\<close>, the second is the state at that point.
\<close>

definition kicks :: "int list" where
  "kicks = [0, 1, - 1, 2, - 2]"

fun kick_loop :: "game \<Rightarrow> int \<Rightarrow> grid \<Rightarrow> int list \<Rightarrow> bool \<times> game" where
  "kick_loop s originalX m [] = (False, s)"
| "kick_loop s originalX m (k # ks) =
     (let s1 = s\<lparr>pos_x := originalX + k\<rparr> in
      if \<not> collide (arena s1) (pos_x s1) (pos_y s1) m
      then (True, s1\<lparr>lockTimer := 0, onGround := False\<rparr>)
      else kick_loop s1 originalX m ks)"

definition rotatePlayer :: "game \<Rightarrow> int \<Rightarrow> game" where
  "rotatePlayer s dir =
     (case matrix s of
        None \<Rightarrow> s
      | Some old \<Rightarrow>
          let m = rotateMatrix old dir;
              s1 = s\<lparr>matrix := Some m\<rparr>;
              originalX = pos_x s1
          in case kick_loop s1 originalX m kicks of
               (True, s2) \<Rightarrow> s2
             | (False, s2) \<Rightarrow> s2\<lparr>matrix := Some old, pos_x := originalX\<rparr>)"

section \<open>Moves and drops\<close>

definition moveOnce :: "game \<Rightarrow> int \<Rightarrow> game" where
  "moveOnce s dir =
     (case matrix s of
        None \<Rightarrow> s
      | Some m \<Rightarrow>
          if paused s \<or> gameOver s then s
          else
            let s1 = s\<lparr>pos_x := pos_x s + dir\<rparr> in
            if collide (arena s1) (pos_x s1) (pos_y s1) m then s1\<lparr>pos_x := pos_x s1 - dir\<rparr>
            else s1\<lparr>lockTimer := 0, onGround := False\<rparr>)"

text \<open>
  \<open>moveOnce(dir)\<close> above, \<open>hardDrop()\<close> below. The \<open>while\<close> loop of \<open>hardDrop\<close> counts
  \<open>drop\<close> up until the piece collides one row further down; on a shape without an
  occupied cell it never ends, which is the value \<open>None\<close> of \<open>drop_scan\<close> and of
  \<open>hardDrop\<close>. After the loop the piece is moved down, and \<open>mergeToArena()\<close>, \<open>sweep()\<close>
  and \<open>spawnPlayer()\<close> are called in this order; when one of them throws, the rest of
  \<open>hardDrop\<close> does not run.
\<close>

partial_function (option) drop_scan :: "grid \<Rightarrow> int \<Rightarrow> int \<Rightarrow> grid \<Rightarrow> int \<Rightarrow> int option" where
  "drop_scan a px py m drop' =
     (if \<not> collide a px (py + drop' + 1) m then drop_scan a px py m (drop' + 1) else Some drop')"

definition hardDrop :: "game \<Rightarrow> outcome option" where
  "hardDrop s =
     (case matrix s of
        None \<Rightarrow> Some (Returns s)
      | Some m \<Rightarrow>
          if gameOver s \<or> paused s then Some (Returns s)
          else
            case drop_scan (arena s) (pos_x s) (pos_y s) m 0 of
              None \<Rightarrow> None
            | Some drop' \<Rightarrow>
                let s0 = s\<lparr>pos_y := pos_y s + drop'\<rparr> in
                Some (case mergeToArena s0 of
                        None \<Rightarrow> Raises s0
                      | Some s1 \<Rightarrow>
                          (case sweep s1 of
                             None \<Rightarrow> Raises s1
                           | Some s2 \<Rightarrow>
                               (case spawnPlayer s2 of
                                  Raises s3 \<Rightarrow> Raises s3
                                | Returns s3 \<Rightarrow> Returns (s3\<lparr>dropAccumulator := 0\<rparr>)))))"

section \<open>Numbers\<close>

text \<open>
  The numbers of the source are IEEE 754 doubles. A finite double is kept as the real
  number it stands for, and the result of an arithmetic operation is the exact result
  rounded by \<open>double\<close>: to the nearest number with a significand of 53 bits, a tie going
  to the even significand, where the exponent of the last place is not below \<open>-1074\<close>
  (gradual underflow). \<open>bit_length n\<close> is the number of binary digits of \<open>n\<close>,
  \<open>exponent x\<close> the integer \<open>e\<close> with \<open>2 ^ e \<le> \<bar>x\<bar> < 2 ^ (e + 1)\<close>. Results of
  magnitude \<open>2 ^ 1024\<close> and above, which are infinite in the source, and the sign of zero
  are not represented; the times and counters of the game, milliseconds since the page
  was loaded, stay far below that.
\<close>

fun bit_length :: "nat \<Rightarrow> nat" where
  "bit_length n = (if n = 0 then 0 else Suc (bit_length (n div 2)))"

declare bit_length.simps [simp del]

definition exponent :: "real \<Rightarrow> int" where
  "exponent x =
     (if 1 \<le> \<bar>x\<bar> then int (bit_length (nat \<lfloor>\<bar>x\<bar>\<rfloor>)) - 1
      else - int (bit_length (nat \<lceil>1 / \<bar>x\<bar>\<rceil> - 1)))"

definition round_even :: "real \<Rightarrow> int" where
  "round_even x =
     (let n = \<lfloor>x\<rfloor>; r = x - of_int n
      in if r < 1 / 2 then n else if 1 / 2 < r then n + 1 else if even n then n else n + 1)"

definition double :: "real \<Rightarrow> real" where
  "double x =
     (if x = 0 then 0
      else let q = 2 powi (max (exponent x) (- 1022) - 52) in of_int (round_even (x / q)) * q)"

section \<open>Frame step\<close>

text \<open>
  \<open>update(time)\<close> without the drawing. \<open>now\<close> is the value that \<open>performance.now()\<close>
  returns in this frame. Every sum, difference, product and quotient of the source is
  rounded by \<open>double\<close>, and the literal \<open>0.001\<close> is the double nearest to it.
  \<open>gravity_loop\<close> is the \<open>while\<close> loop that moves the piece down; it is left by the
  \<open>break\<close> at a collision or when the accumulator has fallen below \<open>msPerCell\<close>,
  \<open>collide\<close> throws in it when there is no shape, and it gives \<open>None\<close> when it does not
  end: the shape has no occupied cell and the subtraction no longer changes the
  accumulator. \<open>das_step\<close> is the auto-repeat of a held direction key, \<open>lock_step\<close> the
  lock-delay block and \<open>lock_piece\<close> its three calls with the resets that follow. Of
  \<open>dasState\<close> the field \<open>holdStart\<close>, which is written and never read, is left out. An
  exception in \<open>update\<close> also skips the \<open>requestAnimationFrame(update)\<close> at its end, so
  no further frame runs: \<open>run_frames\<close>, which runs \<open>update\<close> for a list of frames, stops
  there.
\<close>

definition LOCK_DELAY :: real where
  "LOCK_DELAY = 500"

definition SOFT_DROP_MULT :: real where
  "SOFT_DROP_MULT = 20"

definition ARR :: real where
  "ARR = 60"

definition msPerCell :: "real \<Rightarrow> real" where
  "msPerCell gravity = double (1000 / max (double (1 / 1000)) gravity)"

partial_function (option) gravity_loop :: "game \<Rightarrow> real \<Rightarrow> outcome option" where
  "gravity_loop s gravity =
     (if dropAccumulator s \<ge> msPerCell gravity then
        (let s1 = s\<lparr>pos_y := pos_y s + 1,
                    dropAccumulator := double (dropAccumulator s - msPerCell gravity)\<rparr> in
         case matrix s of
           None \<Rightarrow> Some (Raises s1)
         | Some m \<Rightarrow>
             if collide (arena s1) (pos_x s1) (pos_y s1) m
             then
               let s2 = s1\<lparr>pos_y := pos_y s1 - 1\<rparr>
               in Some (Returns (if \<not> onGround s2 then s2\<lparr>onGround := True, lockTimer := 0\<rparr>
                                 else s2))
             else gravity_loop (s1\<lparr>onGround := False, lockTimer := 0\<rparr>) gravity)
      else Some (Returns s))"

declare gravity_loop.simps [code]

definition das_step :: "game \<Rightarrow> real \<Rightarrow> game" where
  "das_step s now =
     (if das_left s \<or> das_right s then
        (if now \<ge> das_nextMoveAt s
         then (moveOnce s (if das_left s then - 1 else 1))\<lparr>das_nextMoveAt := double (now + ARR)\<rparr>
         else s)
      else s)"

definition lock_piece :: "game \<Rightarrow> outcome" where
  "lock_piece s =
     (case mergeToArena s of
        None \<Rightarrow> Raises s
      | Some s1 \<Rightarrow>
          (case sweep s1 of
             None \<Rightarrow> Raises s1
           | Some s2 \<Rightarrow>
               (case spawnPlayer s2 of
                  Raises s3 \<Rightarrow> Raises s3
                | Returns s3 \<Rightarrow>
                    Returns (s3\<lparr>dropAccumulator := 0, lockTimer := 0, onGround := False\<rparr>))))"

definition lock_step :: "game \<Rightarrow> real \<Rightarrow> outcome" where
  "lock_step s delta =
     (if onGround s then
        let s1 = s\<lparr>lockTimer := double (lockTimer s + delta)\<rparr> in
        if lockTimer s1 \<ge> LOCK_DELAY then lock_piece s1 else Returns s1
      else Returns (s\<lparr>lockTimer := 0\<rparr>))"

definition update :: "game \<Rightarrow> real \<Rightarrow> real \<Rightarrow> outcome option" where
  "update s time now =
     (let delta = double (time - (if lastTime s = 0 then time else lastTime s));
          s0 = s\<lparr>lastTime := time\<rparr>
      in if \<not> paused s0 \<and> \<not> gameOver s0 then
           let gravity = (if soft s0 then double (gravityCPS s0 * SOFT_DROP_MULT) else gravityCPS s0) in
           case gravity_loop (s0\<lparr>dropAccumulator := double (dropAccumulator s0 + delta)\<rparr>) gravity of
             None \<Rightarrow> None
           | Some (Raises s1) \<Rightarrow> Some (Raises s1)
           | Some (Returns s1) \<Rightarrow> Some (lock_step (das_step s1 now) delta)
         else Some (Returns s0))"

fun run_frames :: "game \<Rightarrow> (real \<times> real) list \<Rightarrow> outcome option" where
  "run_frames s [] = Some (Returns s)"
| "run_frames s ((time, now) # fs) =
     (case update s time now of
        None \<Rightarrow> None
      | Some (Raises s') \<Rightarrow> Some (Raises s')
      | Some (Returns s') \<Rightarrow> run_frames s' fs)"

text \<open>
  The kinds that \<open>n\<close> successive draws push onto the queue, the bag that is shuffled from
  the random values number \<open>random_count s + 6 * i\<close> onwards, and the states in which the
  next draw starts a new bag.
\<close>

definition draws :: "nat \<Rightarrow> game \<Rightarrow> kind list" where
  "draws n s = drop (length (nextQueue s)) (nextQueue ((bag_draw ^^ n) s))"

definition nth_bag :: "game \<Rightarrow> nat \<Rightarrow> kind list" where
  "nth_bag s i =
     fst (shuffle_loop (random_source s) (random_count s + 6 * i) all_kinds (length all_kinds - 1))"

definition bag_exhausted :: "game \<Rightarrow> bool" where
  "bag_exhausted s = (case bag s of None \<Rightarrow> True | Some b \<Rightarrow> length b \<le> bag_index s)"

text \<open>
  A shape has an occupied cell; the largest row index of a shape that holds an occupied
  cell.
\<close>

definition occupied :: "grid \<Rightarrow> bool" where
  "occupied m = list_ex (list_ex (\<lambda>v. v \<noteq> 0)) m"

definition lowest_occupied :: "grid \<Rightarrow> nat" where
  "lowest_occupied m = Max (set (filter (\<lambda>y. list_ex (\<lambda>v. v \<noteq> 0) (m ! y)) [0..<length m]))"

section \<open>Collision in the older files\<close>

text \<open>
  \<open>script.js\<close> and the third file hold smaller versions of the same game, in which a piece
  spawns at row \<open>0\<close> and is never above the board. Their \<open>collide(arena, player)\<close> tests
  \<open>m[y][x] !== 0 && (arena[y + o.y] && arena[y + o.y][x + o.x]) !== 0\<close>: a row or a cell
  outside the arrays reads as \<open>undefined\<close>, which is \<open>!== 0\<close>.
\<close>

definition blocked_script :: "grid \<Rightarrow> int \<Rightarrow> int \<Rightarrow> bool" where
  "blocked_script a r c =
     (if 0 \<le> r \<and> nat r < length a
      then (if 0 \<le> c \<and> nat c < length (a ! nat r) then a ! nat r ! nat c \<noteq> 0 else True)
      else True)"

fun collide_script_row :: "grid \<Rightarrow> int \<Rightarrow> int \<Rightarrow> nat \<Rightarrow> nat \<Rightarrow> row \<Rightarrow> bool" where
  "collide_script_row a ox oy y x [] = False"
| "collide_script_row a ox oy y x (v # vs) =
     (if v \<noteq> 0 \<and> blocked_script a (int y + oy) (int x + ox) then True
      else collide_script_row a ox oy y (Suc x) vs)"

fun collide_script_rows :: "grid \<Rightarrow> int \<Rightarrow> int \<Rightarrow> nat \<Rightarrow> grid \<Rightarrow> bool" where
  "collide_script_rows a ox oy y [] = False"
| "collide_script_rows a ox oy y (r # rs) =
     (if collide_script_row a ox oy y 0 r then True
      else collide_script_rows a ox oy (Suc y) rs)"

definition collide_script :: "grid \<Rightarrow> int \<Rightarrow> int \<Rightarrow> grid \<Rightarrow> bool" where
  "collide_script a ox oy m = collide_script_rows a ox oy 0 m"

section \<open>Example states\<close>

text \<open>Concrete states on which the theorems below are instantiated.\<close>

definition t_piece_game :: game where
  "t_piece_game = (initial_game 0 (\<lambda>_. 0))
     \<lparr> pos_x := 4, pos_y := - 1, matrix := Some [[0,3,0],[3,3,3],[0,0,0]], player_id := 3 \<rparr>"

definition rows_2_5_row :: "nat \<Rightarrow> row" where
  "rows_2_5_row i = (if i = 2 \<or> i = 5 then replicate COLS 7 else replicate (COLS - 1) 0 @ [Suc i])"

definition rows_2_5_game :: game where
  "rows_2_5_game = (initial_game 0 (\<lambda>_. 0)) \<lparr> arena := map rows_2_5_row [0..<ROWS] \<rparr>"

definition i_piece_game :: game where
  "i_piece_game = (initial_game 0 (\<lambda>_. 0))
     \<lparr> pos_x := - 2, pos_y := 5, matrix := Some (replicate 4 [0,0,1,0]), player_id := 1,
       lockTimer := 499, onGround := True \<rparr>"

definition topped_game :: game where
  "topped_game = (initial_game 0 (\<lambda>_. 0))
     \<lparr> arena := replicate COLS 7 # replicate (ROWS - 1) (replicate COLS 0), score := 1000 \<rparr>"

definition repeat_source :: "nat \<Rightarrow> real" where
  "repeat_source k = (if k = 6 then 0 else 99 / 100)"

definition drop_game :: game where
  "drop_game = (initial_game 0 (\<lambda>_. 0))
     \<lparr> pos_x := 4, pos_y := 0, matrix := Some [[0,3,0],[3,3,3],[0,0,0]], player_id := 3 \<rparr>"

definition start_game :: game where
  "start_game = initial_game 0 (\<lambda>_. 0)"

definition falling_game :: game where
  "falling_game = (initial_game 0 (\<lambda>_. 0))
     \<lparr> pos_x := 4, pos_y := 17, matrix := Some [[0,3,0],[3,3,3],[0,0,0]], player_id := 3,
       lastTime := 1000, soft := True \<rparr>"

definition resting_game :: game where
  "resting_game = falling_game\<lparr>pos_y := 18, onGround := True, lockTimer := 450, lastTime := 1500\<rparr>"

definition locked_game :: game where
  "locked_game = resting_game
     \<lparr> lockTimer := 500, lastTime := 1550,
       arena := replicate 18 (replicate 12 0)
                @ [[0,0,0,0,0,3,0,0,0,0,0,0], [0,0,0,0,3,3,3,0,0,0,0,0]] \<rparr>"

definition gap_game :: game where
  "gap_game = resting_game
     \<lparr> arena := replicate 19 (replicate 12 0) @ [[7,7,7,7,0,0,0,7,7,7,7,7]] \<rparr>"

definition held_game :: game where
  "held_game = resting_game\<lparr>soft := False, holdPiece := Some KO\<rparr>"

definition swapped_game :: game where
  "swapped_game = held_game
     \<lparr> holdPiece := Some KT, matrix := Some [[2,2],[2,2]], player_id := 2, pos_x := 5,
       pos_y := - 1, holdUsed := True \<rparr>"

definition dropped_game :: game where
  "dropped_game = drop_game
     \<lparr> pos_y := 18,
       arena := replicate 18 (replicate 12 0)
                @ [[0,0,0,0,0,3,0,0,0,0,0,0], [0,0,0,0,3,3,3,0,0,0,0,0]] \<rparr>"

definition frame_start :: real where
  "frame_start = double (20029999999999998 / 100000000000000)"

definition frame_end :: real where
  "frame_end = double (7003 / 10)"

definition full_rows_game :: "nat \<Rightarrow> nat \<Rightarrow> game" where
  "full_rows_game k n = (initial_game 0 (\<lambda>_. 0))
     \<lparr> arena := replicate (ROWS - k) (replicate COLS 0) @ replicate k (replicate COLS 7),
       lines := n, level := n div 10 \<rparr>"

section \<open>Properties of collision\<close>

lemma collide_row_iff:
  "collide_row a px py y x0 vs \<longleftrightarrow>
     (\<exists>i<length vs. vs ! i \<noteq> 0 \<and>
        (int (x0 + i) + px < 0 \<or> int (x0 + i) + px \<ge> int COLS \<or> int y + py \<ge> int ROWS \<or>
         (int y + py \<ge> 0 \<and> a ! nat (int y + py) ! nat (int (x0 + i) + px) \<noteq> 0)))"
proof (induction vs arbitrary: x0)
  case Nil
  show ?case by simp
next
  case (Cons v vs)
  show ?case
    unfolding collide_row.simps Let_def Cons.IH [of "Suc x0"] length_Cons Ex_less_Suc2
    by (auto simp: ac_simps)
qed

lemma collide_rows_iff:
  "collide_rows a px py y0 rs \<longleftrightarrow>
     (\<exists>j<length rs. \<exists>i<length (rs ! j). rs ! j ! i \<noteq> 0 \<and>
        (int i + px < 0 \<or> int i + px \<ge> int COLS \<or> int (y0 + j) + py \<ge> int ROWS \<or>
         (int (y0 + j) + py \<ge> 0 \<and> a ! nat (int (y0 + j) + py) ! nat (int i + px) \<noteq> 0)))"
proof (induction rs arbitrary: y0)
  case Nil
  show ?case by simp
next
  case (Cons r rs)
  show ?case
    unfolding collide_rows.simps Cons.IH [of "Suc y0"] collide_row_iff length_Cons Ex_less_Suc2
    by (auto simp: ac_simps)
qed

lemma collide_cells:
  "collide a px py m \<longleftrightarrow>
     (\<exists>y<length m. \<exists>x<length (m ! y). m ! y ! x \<noteq> 0 \<and>
        (int x + px < 0 \<or> int x + px \<ge> int COLS \<or> int y + py \<ge> int ROWS \<or>
         (int y + py \<ge> 0 \<and> a ! nat (int y + py) ! nat (int x + px) \<noteq> 0)))"
  unfolding collide_def collide_rows_iff by simp

text \<open>
  C1. \<open>collide\<close> returns true exactly when some occupied shape cell maps left of column 0,
  to column \<open>COLS\<close> or beyond, to row \<open>ROWS\<close> or below, or onto a non-empty a cell
  whose row is not negative. A cell above the top of the board is tested for its column
  only.
\<close>

theorem collide_iff:
  "collide a px py m \<longleftrightarrow>
     (\<exists>y<length m. \<exists>x<length (m ! y). m ! y ! x \<noteq> 0 \<and>
        (int x + px < 0 \<or> int x + px \<ge> int COLS \<or> int y + py \<ge> int ROWS \<or>
         (int y + py \<ge> 0 \<and> a ! nat (int y + py) ! nat (int x + px) \<noteq> 0)))"
  unfolding collide_def collide_rows_iff by simp

section \<open>Properties of merging\<close>

lemma wf_arena_update:
  "wf_arena a \<Longrightarrow> wf_arena (a[r := (a ! r)[c := v]])"
proof (cases "r < length a")
  case True
  assume "wf_arena a"
  with True show ?thesis
    by (auto simp: wf_arena_def list_all_length nth_list_update)
next
  case False
  assume "wf_arena a"
  with False show ?thesis by (simp add: list_update_beyond)
qed

lemma merge_row_wf: "wf_arena a \<Longrightarrow> wf_arena (merge_row a px py y x vs)"
  by (induction vs arbitrary: a x) (simp_all add: Let_def wf_arena_update)

lemma merge_rows_wf: "wf_arena a \<Longrightarrow> wf_arena (merge_rows a px py y rs)"
  by (induction rs arbitrary: a y) (simp_all add: merge_row_wf)

lemma nth_Cons_int: "0 < (k::int) \<Longrightarrow> (v # vs) ! nat k = vs ! nat (k - 1)"
proof -
  assume "0 < k"
  then have "nat k = Suc (nat (k - 1))" by linarith
  then show ?thesis by simp
qed

lemma merge_row_cell:
  assumes "wf_arena a" "r < ROWS" "c < COLS"
  shows "merge_row a px py y x0 vs ! r ! c =
     (if int r = int y + py \<and> int x0 \<le> int c - px \<and> nat (int c - px - int x0) < length vs
          \<and> vs ! nat (int c - px - int x0) \<noteq> 0
      then vs ! nat (int c - px - int x0) else a ! r ! c)"
  using assms
proof (induction vs arbitrary: a x0)
  case Nil
  show ?case by simp
next
  case (Cons v vs)
  let ?k = "int c - px - int x0"
  have k: "int c - px - int (Suc x0) = ?k - 1" by simp
  have nth: "0 < ?k \<Longrightarrow> (v # vs) ! nat ?k = vs ! nat (?k - 1)"
    by (rule nth_Cons_int)
  have lt: "0 < ?k \<Longrightarrow> nat (?k - 1) < length vs \<longleftrightarrow> nat ?k < length (v # vs)"
    by auto
  show ?case
  proof (cases "v = 0 \<or> \<not> (int y + py \<ge> 0 \<and> int y + py < int ROWS \<and> int x0 + px \<ge> 0 \<and> int x0 + px < int COLS)")
    case True
    then have st: "merge_row a px py y x0 (v # vs) = merge_row a px py y (Suc x0) vs"
      by (auto simp: Let_def)
    have "?k = 0 \<Longrightarrow> int r = int y + py \<Longrightarrow> v = 0"
      using True Cons.prems by auto
    then show ?thesis
      unfolding st Cons.IH [OF Cons.prems] k
      using nth lt by (cases "?k = 0"; cases "0 < ?k") auto
  next
    case False
    let ?a' = "a[nat (int y + py) := (a ! nat (int y + py))[nat (int x0 + px) := v]]"
    have st: "merge_row a px py y x0 (v # vs) = merge_row ?a' px py y (Suc x0) vs"
      using False by (auto simp: Let_def)
    have wf': "wf_arena ?a'" using Cons.prems(1) by (rule wf_arena_update)
    have len: "length a = ROWS" "length (a ! nat (int y + py)) = COLS"
      using Cons.prems(1) False by (auto simp: wf_arena_def list_all_length)
    have e1: "nat (int y + py) = r \<longleftrightarrow> int r = int y + py"
      using False by linarith
    have e2: "nat (int x0 + px) = c \<longleftrightarrow> ?k = 0"
      using False by linarith
    have old: "?a' ! r ! c = (if int r = int y + py \<and> ?k = 0 then v else a ! r ! c)"
    proof (cases "nat (int y + py) = r")
      case True
      then show ?thesis
        using Cons.prems len e1 e2 by (simp add: nth_list_update)
    next
      case False
      then show ?thesis
        using e1 by simp
    qed
    show ?thesis
      unfolding st Cons.IH [OF wf' Cons.prems(2,3)] k old
      using nth lt False by (cases "?k = 0"; cases "0 < ?k") auto
  qed
qed

lemma merge_rows_cell:
  assumes "wf_arena a" "r < ROWS" "c < COLS"
  shows "merge_rows a px py y0 rs ! r ! c =
     (if int y0 \<le> int r - py \<and> nat (int r - py - int y0) < length rs \<and> 0 \<le> int c - px
          \<and> nat (int c - px) < length (rs ! nat (int r - py - int y0))
          \<and> rs ! nat (int r - py - int y0) ! nat (int c - px) \<noteq> 0
      then rs ! nat (int r - py - int y0) ! nat (int c - px) else a ! r ! c)"
  using assms
proof (induction rs arbitrary: a y0)
  case Nil
  show ?case by simp
next
  case (Cons r0 rs)
  let ?j = "int r - py - int y0"
  let ?a' = "merge_row a px py y0 0 r0"
  have wf': "wf_arena ?a'" using Cons.prems(1) by (rule merge_row_wf)
  have j: "int r - py - int (Suc y0) = ?j - 1" by simp
  have nth: "0 < ?j \<Longrightarrow> (r0 # rs) ! nat ?j = rs ! nat (?j - 1)"
    by (rule nth_Cons_int)
  have lt: "0 < ?j \<Longrightarrow> nat (?j - 1) < length rs \<longleftrightarrow> nat ?j < length (r0 # rs)"
    by auto
  have row: "?a' ! r ! c =
     (if ?j = 0 \<and> 0 \<le> int c - px \<and> nat (int c - px) < length r0 \<and> r0 ! nat (int c - px) \<noteq> 0
      then r0 ! nat (int c - px) else a ! r ! c)"
    unfolding merge_row_cell [OF Cons.prems] by auto
  show ?case
    unfolding merge_rows.simps Cons.IH [OF wf' Cons.prems(2,3)] j row
    using nth lt by (cases "?j = 0"; cases "0 < ?j") auto
qed

lemma shape_at_stamped:
  assumes "stamped m i" and "shape_at m px py r c \<noteq> 0"
  shows "shape_at m px py r c = i"
proof -
  let ?y = "nat (int r - py)" and ?x = "nat (int c - px)"
  from assms(2) have in_shape: "?y < length m" "?x < length (m ! ?y)"
    and val: "shape_at m px py r c = m ! ?y ! ?x"
    by (simp_all add: shape_at_def Let_def split: if_splits)
  from assms(1) in_shape have "m ! ?y ! ?x = 0 \<or> m ! ?y ! ?x = i"
    by (simp add: stamped_def list_all_length)
  with assms(2) val show ?thesis by simp
qed

text \<open>
  C10. On an arena of the regular dimensions, \<open>mergeToArena\<close> changes the arena only:
  board cell \<open>(r, c)\<close> receives the value of the occupied shape cell that lies on it,
  which is the piece identifier for a stamped shape, and every other cell keeps its value.
  Shape cells that map outside the rows or columns of the board write nothing: the
  result has the same dimensions.
\<close>

theorem mergeToArena_cells:
  assumes "matrix s = Some m" and "wf_arena (arena s)"
  shows "\<exists>s'. mergeToArena s = Some s' \<and> s' = s\<lparr>arena := arena s'\<rparr> \<and> wf_arena (arena s') \<and>
     (\<forall>r<ROWS. \<forall>c<COLS. arena s' ! r ! c =
        (if shape_at m (pos_x s) (pos_y s) r c \<noteq> 0 then shape_at m (pos_x s) (pos_y s) r c
         else arena s ! r ! c)) \<and>
     (stamped m (player_id s) \<longrightarrow>
        (\<forall>r<ROWS. \<forall>c<COLS. arena s' ! r ! c =
           (if shape_at m (pos_x s) (pos_y s) r c \<noteq> 0 then player_id s else arena s ! r ! c)))"
proof -
  let ?s' = "s\<lparr>arena := merge_rows (arena s) (pos_x s) (pos_y s) 0 m\<rparr>"
  have 1: "mergeToArena s = Some ?s'" using assms(1) by (simp add: mergeToArena_def)
  have 2: "wf_arena (arena ?s')" using assms(2) by (simp add: merge_rows_wf)
  have 3: "arena ?s' ! r ! c =
        (if shape_at m (pos_x s) (pos_y s) r c \<noteq> 0 then shape_at m (pos_x s) (pos_y s) r c
         else arena s ! r ! c)" if "r < ROWS" "c < COLS" for r c
    using merge_rows_cell [OF assms(2) that, of "pos_x s" "pos_y s" 0 m]
    by (simp add: shape_at_def Let_def)
  have 4: "arena ?s' ! r ! c =
           (if shape_at m (pos_x s) (pos_y s) r c \<noteq> 0 then player_id s else arena s ! r ! c)"
    if "r < ROWS" "c < COLS" "stamped m (player_id s)" for r c
    using 3 [OF that(1,2)] shape_at_stamped [OF that(3)] by auto
  show ?thesis
    using 1 2 3 4 by (intro exI [of _ ?s']) simp
qed

section \<open>Properties of sweeping\<close>

lemma row_full_fresh: "\<not> row_full (replicate COLS 0)"
  by code_simp

lemma sweep_loop_spec:
  "- 1 \<le> y \<Longrightarrow> y < int (length a) \<Longrightarrow>
   sweep_loop a y c =
     Some (replicate (length (filter row_full (take (nat (y + 1)) a))) (replicate COLS 0)
             @ filter (\<lambda>r. \<not> row_full r) (take (nat (y + 1)) a) @ drop (nat (y + 1)) a,
           c + length (filter row_full (take (nat (y + 1)) a)))"
proof (induction a y c rule: sweep_loop.induct)
  case (1 a y cleared)
  show ?case
  proof (cases "y < 0")
    case True
    with 1 have "y = - 1" by simp
    then show ?thesis by (simp add: sweep_loop.simps)
  next
    case nonneg: False
    then have n: "nat (y + 1) = Suc (nat y)" "nat y < length a" using 1 by simp_all
    show ?thesis
    proof (cases "row_full (a ! nat y)")
      case True
      let ?a' = "replicate COLS 0 # (take (nat y) a @ drop (Suc (nat y)) a)"
      have len: "y < int (length ?a')" using n by simp
      have tk: "take (Suc (nat y)) ?a' = replicate COLS 0 # take (nat y) a"
        using n by simp
      have dr: "drop (Suc (nat y)) ?a' = drop (Suc (nat y)) a"
        using n by simp
      have IH: "sweep_loop ?a' y (cleared + 1) =
         Some (replicate (length (filter row_full (take (nat (y + 1)) ?a'))) (replicate COLS 0)
             @ filter (\<lambda>r. \<not> row_full r) (take (nat (y + 1)) ?a') @ drop (nat (y + 1)) ?a',
           cleared + 1 + length (filter row_full (take (nat (y + 1)) ?a')))"
        using "1.IH"(1) [OF nonneg _ True _ len] n "1.prems" by simp
      have step: "sweep_loop a y cleared = sweep_loop ?a' y (cleared + 1)"
        using nonneg n True by (subst sweep_loop.simps) simp
      show ?thesis
        unfolding step IH n tk dr
        using True n(2) row_full_fresh
        by (simp add: take_Suc_conv_app_nth replicate_append_same)
    next
      case False
      have step: "sweep_loop a y cleared = sweep_loop a (y - 1) cleared"
        using nonneg n False by (subst sweep_loop.simps) simp
      have IH: "sweep_loop a (y - 1) cleared =
         Some (replicate (length (filter row_full (take (nat (y - 1 + 1)) a))) (replicate COLS 0)
             @ filter (\<lambda>r. \<not> row_full r) (take (nat (y - 1 + 1)) a) @ drop (nat (y - 1 + 1)) a,
           cleared + length (filter row_full (take (nat (y - 1 + 1)) a)))"
        using "1.IH"(2) [OF nonneg _ False] n "1.prems" nonneg by simp
      show ?thesis
        unfolding step IH n
        using False n(2) nonneg
        by (simp add: take_Suc_conv_app_nth Cons_nth_drop_Suc)
    qed
  qed
qed

lemma row_full_iff: "length r = COLS \<Longrightarrow> row_full r \<longleftrightarrow> 0 \<notin> set r"
  by (auto simp: row_full_def list_all_iff in_set_conv_nth)

lemma filter_full_wf:
  "list_all (\<lambda>r. length r = COLS) a \<Longrightarrow> filter row_full a = filter (\<lambda>r. 0 \<notin> set r) a"
  "list_all (\<lambda>r. length r = COLS) a \<Longrightarrow> filter (\<lambda>r. \<not> row_full r) a = filter (\<lambda>r. 0 \<in> set r) a"
  by (induction a) (simp_all add: row_full_iff)

lemma sweep_loop_wf:
  assumes "wf_arena a"
  shows "sweep_loop a (int ROWS - 1) 0 =
     Some (replicate (length (filter (\<lambda>r. 0 \<notin> set r) a)) (replicate COLS 0)
             @ filter (\<lambda>r. 0 \<in> set r) a,
           length (filter (\<lambda>r. 0 \<notin> set r) a))"
proof -
  have len: "length a = ROWS" and rows: "list_all (\<lambda>r. length r = COLS) a"
    using assms by (simp_all add: wf_arena_def)
  have "- 1 \<le> int ROWS - 1" "int ROWS - 1 < int (length a)" using len by simp_all
  from sweep_loop_spec [OF this, of 0] show ?thesis
    using len by (simp add: filter_full_wf [OF rows])
qed

text \<open>
  C2, as the code has it. On an arena of the regular dimensions \<open>sweep\<close> returns, having
  removed every row without an empty cell, the topmost row included; the rows that remain
  keep their order and sit below as many new empty rows as rows were removed. The number
  of removed rows is the final value of the local counter \<open>cleared\<close> of the loop, which
  is added to \<open>lines\<close>; the call itself returns no value.
\<close>

theorem sweep_clears_full_rows:
  assumes "wf_arena (arena s)"
  shows "\<exists>s'. sweep s = Some s' \<and>
     sweep_loop (arena s) (int ROWS - 1) 0 =
       Some (arena s', length (filter (\<lambda>r. 0 \<notin> set r) (arena s))) \<and>
     arena s' = replicate (length (filter (\<lambda>r. 0 \<notin> set r) (arena s))) (replicate COLS 0)
                 @ filter (\<lambda>r. 0 \<in> set r) (arena s) \<and>
     wf_arena (arena s') \<and>
     lines s' = lines s + length (filter (\<lambda>r. 0 \<notin> set r) (arena s)) \<and>
     sweep_value s = Some Undefined"
proof -
  let ?n = "length (filter (\<lambda>r. 0 \<notin> set r) (arena s))"
  let ?a' = "replicate ?n (replicate COLS 0) @ filter (\<lambda>r. 0 \<in> set r) (arena s)"
  have loop: "sweep_loop (arena s) (int ROWS - 1) 0 = Some (?a', ?n)"
    using assms by (rule sweep_loop_wf)
  have "\<exists>s'. sweep s = Some s' \<and> arena s' = ?a' \<and> lines s' = lines s + ?n"
    unfolding sweep_def loop by (simp add: Let_def)
  then obtain s' where s': "sweep s = Some s'" "arena s' = ?a'" "lines s' = lines s + ?n"
    by blast
  have v: "sweep_value s = Some Undefined"
    using s'(1) by (simp add: sweep_value_def)
  have "length (filter (\<lambda>r. 0 \<notin> set r) (arena s)) + length (filter (\<lambda>r. 0 \<in> set r) (arena s))
      = length (arena s)"
    using sum_length_filter_compl [of "\<lambda>r. 0 \<notin> set r" "arena s"] by simp
  then have "wf_arena ?a'"
    using assms by (auto simp: wf_arena_def list_all_iff)
  then show ?thesis using s' loop v by simp
qed

text \<open>
  C7. When \<open>n > 0\<close> rows are cleared, the score grows by the table entry for \<open>n\<close>
  times the level before the clear plus one, \<open>n\<close> is added to the lines and the
  level becomes the lines divided by ten, rounded down. When no row is cleared, the
  three stay as they are.
\<close>

theorem sweep_score:
  assumes "wf_arena (arena s)" and "n = length (filter (\<lambda>r. 0 \<notin> set r) (arena s))"
  shows "\<exists>s'. sweep s = Some s' \<and>
     (if n > 0
      then score s' = score s + (if n < 5 then [0, 40, 100, 300, 1200] ! n else 0) * (level s + 1)
         \<and> lines s' = lines s + n \<and> level s' = (lines s + n) div 10
      else score s' = score s \<and> lines s' = lines s \<and> level s' = level s)"
proof -
  have loop: "sweep_loop (arena s) (int ROWS - 1) 0 =
      Some (replicate n (replicate COLS 0) @ filter (\<lambda>r. 0 \<in> set r) (arena s), n)"
    unfolding assms(2) using assms(1) by (rule sweep_loop_wf)
  show ?thesis
    unfolding sweep_def loop
    by (simp add: Let_def line_score_def lineScores_def)
qed

section \<open>Instances on concrete states\<close>

lemma wf_initial: "wf_arena (arena (initial_game hs rnd))"
  by (simp add: initial_game_def wf_arena_def createMatrix_def list_all_iff)

theorem mergeToArena_cells_witness:
  "matrix t_piece_game = Some [[0,3,0],[3,3,3],[0,0,0]] \<and> wf_arena (arena t_piece_game) \<and>
   stamped [[0,3,0],[3,3,3],[0,0,0]] (player_id t_piece_game) \<and>
   (\<exists>s'. mergeToArena t_piece_game = Some s' \<and> wf_arena (arena s') \<and>
      map (\<lambda>c. arena s' ! 0 ! c) [3, 4, 5, 6, 7] = [0, 3, 3, 3, 0] \<and>
      map (\<lambda>c. arena s' ! 1 ! c) [3, 4, 5, 6, 7] = [0, 0, 0, 0, 0])"
proof -
  have h1: "matrix t_piece_game = Some [[0,3,0],[3,3,3],[0,0,0]]"
    by (simp add: t_piece_game_def)
  have h2: "wf_arena (arena t_piece_game)"
    by (simp add: t_piece_game_def wf_initial)
  have h3: "stamped [[0,3,0],[3,3,3],[0,0,0]] (player_id t_piece_game)"
    by (simp add: t_piece_game_def stamped_def)
  have old: "arena t_piece_game ! r ! c = 0" if "r < ROWS" "c < COLS" for r c
    using that by (simp add: t_piece_game_def initial_game_def createMatrix_def)
  have pos: "pos_x t_piece_game = 4" "pos_y t_piece_game = - 1"
    by (simp_all add: t_piece_game_def)
  from mergeToArena_cells [OF h1 h2] obtain s' where
    s': "mergeToArena t_piece_game = Some s'" "wf_arena (arena s')"
    and cells: "\<forall>r<ROWS. \<forall>c<COLS. arena s' ! r ! c =
        (if shape_at [[0,3,0],[3,3,3],[0,0,0]] 4 (- 1) r c \<noteq> 0
         then shape_at [[0,3,0],[3,3,3],[0,0,0]] 4 (- 1) r c else arena t_piece_game ! r ! c)"
    unfolding pos by blast
  have cell: "arena s' ! r ! c = shape_at [[0,3,0],[3,3,3],[0,0,0]] 4 (- 1) r c"
    if "r < ROWS" "c < COLS" for r c
    using cells that old [OF that] by simp
  have r0: "map (\<lambda>c. arena s' ! 0 ! c) [3, 4, 5, 6, 7] = [0, 3, 3, 3, 0]"
    by (simp add: cell ROWS_def COLS_def shape_at_def)
  have r1: "map (\<lambda>c. arena s' ! 1 ! c) [3, 4, 5, 6, 7] = [0, 0, 0, 0, 0]"
    by (simp add: cell ROWS_def COLS_def shape_at_def)
  show ?thesis
    by (intro conjI exI [of _ s']) (fact h1 h2 h3 s' r0 r1)+
qed

theorem sweep_clears_full_rows_witness:
  "wf_arena (arena rows_2_5_game) \<and>
   (\<exists>s'. sweep rows_2_5_game = Some s' \<and>
      sweep_loop (arena rows_2_5_game) (int ROWS - 1) 0 = Some (arena s', 2) \<and>
      arena s' = replicate 2 (replicate COLS 0)
                 @ map rows_2_5_row [0, 1, 3, 4, 6, 7, 8, 9, 10, 11, 12, 13, 14, 15, 16, 17, 18, 19] \<and>
      lines s' = 2) \<and>
   sweep_value rows_2_5_game = Some Undefined"
proof -
  have h: "wf_arena (arena rows_2_5_game)"
    by code_simp
  have n: "length (filter (\<lambda>r. 0 \<notin> set r) (arena rows_2_5_game)) = 2"
    by code_simp
  have k: "filter (\<lambda>r. 0 \<in> set r) (arena rows_2_5_game)
      = map rows_2_5_row [0, 1, 3, 4, 6, 7, 8, 9, 10, 11, 12, 13, 14, 15, 16, 17, 18, 19]"
    by code_simp
  from sweep_clears_full_rows [OF h] obtain s' where
    "sweep rows_2_5_game = Some s'"
    "sweep_loop (arena rows_2_5_game) (int ROWS - 1) 0 =
       Some (arena s', length (filter (\<lambda>r. 0 \<notin> set r) (arena rows_2_5_game)))"
    "arena s' = replicate (length (filter (\<lambda>r. 0 \<notin> set r) (arena rows_2_5_game))) (replicate COLS 0)
                 @ filter (\<lambda>r. 0 \<in> set r) (arena rows_2_5_game)"
    "lines s' = lines rows_2_5_game + length (filter (\<lambda>r. 0 \<notin> set r) (arena rows_2_5_game))"
    "sweep_value rows_2_5_game = Some Undefined"
    by blast
  moreover have "lines rows_2_5_game = 0"
    by (simp add: rows_2_5_game_def initial_game_def)
  ultimately show ?thesis
    unfolding n k using h by auto
qed

text \<open>
  C2, as the claim has it, fails on the return value: on the arena with exactly the rows
  \<open>2\<close> and \<open>5\<close> full, two rows are cleared and the call returns \<open>undefined\<close>, not \<open>2\<close>.
\<close>

theorem sweep_returns_no_count:
  "length (filter row_full (arena rows_2_5_game)) = 2 \<and>
   sweep_value rows_2_5_game = Some Undefined \<and>
   sweep_value rows_2_5_game \<noteq> Some (Number 2)"
proof -
  have n: "length (filter row_full (arena rows_2_5_game)) = 2"
    by code_simp
  have "wf_arena (arena rows_2_5_game)"
    by code_simp
  then have "sweep_value rows_2_5_game = Some Undefined"
    unfolding sweep_value_def sweep_def sweep_loop_wf [OF \<open>wf_arena (arena rows_2_5_game)\<close>]
    by (simp add: Let_def)
  with n show ?thesis by simp
qed

theorem sweep_score_witness:
  "wf_arena (arena (full_rows_game 1 0)) \<and>
   1 = length (filter (\<lambda>r. 0 \<notin> set r) (arena (full_rows_game 1 0))) \<and>
   wf_arena (arena (full_rows_game 4 0)) \<and>
   4 = length (filter (\<lambda>r. 0 \<notin> set r) (arena (full_rows_game 4 0))) \<and>
   wf_arena (arena (full_rows_game 1 10)) \<and>
   1 = length (filter (\<lambda>r. 0 \<notin> set r) (arena (full_rows_game 1 10))) \<and>
   wf_arena (arena (full_rows_game 0 0)) \<and>
   0 = length (filter (\<lambda>r. 0 \<notin> set r) (arena (full_rows_game 0 0))) \<and>
   level (full_rows_game 1 0) = 0 \<and> level (full_rows_game 4 0) = 0 \<and>
   level (full_rows_game 1 10) = 1 \<and>
   (\<exists>s'. sweep (full_rows_game 1 0) = Some s' \<and> score s' = 40 \<and> lines s' = 1 \<and> level s' = 0) \<and>
   (\<exists>s'. sweep (full_rows_game 4 0) = Some s' \<and> score s' = 1200 \<and> lines s' = 4 \<and> level s' = 0) \<and>
   (\<exists>s'. sweep (full_rows_game 1 10) = Some s' \<and> score s' = 80 \<and> lines s' = 11 \<and> level s' = 1) \<and>
   (\<exists>s'. sweep (full_rows_game 0 0) = Some s' \<and> score s' = 0 \<and> lines s' = 0 \<and> level s' = 0)"
proof -
  have w: "wf_arena (arena (full_rows_game 1 0))" "wf_arena (arena (full_rows_game 4 0))"
    "wf_arena (arena (full_rows_game 1 10))" "wf_arena (arena (full_rows_game 0 0))"
    by code_simp+
  have n: "1 = length (filter (\<lambda>r. 0 \<notin> set r) (arena (full_rows_game 1 0)))"
    "4 = length (filter (\<lambda>r. 0 \<notin> set r) (arena (full_rows_game 4 0)))"
    "1 = length (filter (\<lambda>r. 0 \<notin> set r) (arena (full_rows_game 1 10)))"
    "0 = length (filter (\<lambda>r. 0 \<notin> set r) (arena (full_rows_game 0 0)))"
    by code_simp+
  have z: "score (full_rows_game k i) = 0" "lines (full_rows_game k i) = i"
    "level (full_rows_game k i) = i div 10" for k i
    by (simp_all add: full_rows_game_def initial_game_def)
  have a: "\<exists>s'. sweep (full_rows_game 1 0) = Some s' \<and> score s' = 40 \<and> lines s' = 1 \<and> level s' = 0"
    using sweep_score [OF w(1) n(1)] by (simp add: z)
  have b: "\<exists>s'. sweep (full_rows_game 4 0) = Some s' \<and> score s' = 1200 \<and> lines s' = 4 \<and> level s' = 0"
    using sweep_score [OF w(2) n(2)] by (simp add: z)
  have c: "\<exists>s'. sweep (full_rows_game 1 10) = Some s' \<and> score s' = 80 \<and> lines s' = 11 \<and> level s' = 1"
    using sweep_score [OF w(3) n(3)] by (simp add: z)
  have d: "\<exists>s'. sweep (full_rows_game 0 0) = Some s' \<and> score s' = 0 \<and> lines s' = 0 \<and> level s' = 0"
    using sweep_score [OF w(4) n(4)] by (simp add: z)
  show ?thesis
    using w n a b c d by (simp add: z)
qed

lemma line_score_scenarios:
  "line_score 1 * (0 + 1) = 40 \<and> line_score 4 * (0 + 1) = 1200 \<and> line_score 1 * (1 + 1) = 80"
  by (simp add: line_score_def lineScores_def)

section \<open>Properties of rotation\<close>

lemma square_nth: "square m \<Longrightarrow> a < length m \<Longrightarrow> length (m ! a) = length m"
  by (simp add: square_def list_all_length)

lemma swap_cells_spec:
  assumes "square m" "x < length m" "y < length m" "x \<noteq> y"
  shows "square (swap_cells m x y)" "length (swap_cells m x y) = length m"
    and "\<And>a b. a < length m \<Longrightarrow> b < length m \<Longrightarrow>
      swap_cells m x y ! a ! b =
        (if a = x \<and> b = y then m ! y ! x else if a = y \<and> b = x then m ! x ! y else m ! a ! b)"
proof -
  show len: "length (swap_cells m x y) = length m"
    by (simp add: swap_cells_def Let_def)
  show "square (swap_cells m x y)"
    using assms by (auto simp: square_def list_all_length swap_cells_def Let_def nth_list_update)
  fix a b assume "a < length m" "b < length m"
  then show "swap_cells m x y ! a ! b =
        (if a = x \<and> b = y then m ! y ! x else if a = y \<and> b = x then m ! x ! y else m ! a ! b)"
    using assms square_nth [OF assms(1)]
    by (auto simp: swap_cells_def Let_def nth_list_update)
qed

lemma transpose_row_spec:
  assumes "square m" "y < length m" "k \<le> y"
  shows "square (foldl (\<lambda>m' x. swap_cells m' x y) m [0..<k]) \<and>
     length (foldl (\<lambda>m' x. swap_cells m' x y) m [0..<k]) = length m \<and>
     (\<forall>a<length m. \<forall>b<length m. foldl (\<lambda>m' x. swap_cells m' x y) m [0..<k] ! a ! b =
        (if (a = y \<and> b < k) \<or> (b = y \<and> a < k) then m ! b ! a else m ! a ! b))"
  using assms(3)
proof (induction k)
  case 0
  show ?case using assms(1) by simp
next
  case (Suc k)
  let ?t = "foldl (\<lambda>m' x. swap_cells m' x y) m [0..<k]"
  from Suc have IH: "square ?t" "length ?t = length m"
    "\<And>a b. a < length m \<Longrightarrow> b < length m \<Longrightarrow> ?t ! a ! b =
        (if (a = y \<and> b < k) \<or> (b = y \<and> a < k) then m ! b ! a else m ! a ! b)"
    by simp_all
  have k: "k < length ?t" "y < length ?t" "k \<noteq> y"
    using Suc.prems assms(2) IH(2) by simp_all
  note sw = swap_cells_spec [OF IH(1) k]
  have "foldl (\<lambda>m' x. swap_cells m' x y) m [0..<Suc k] = swap_cells ?t k y"
    by simp
  moreover have "swap_cells ?t k y ! a ! b =
        (if (a = y \<and> b < Suc k) \<or> (b = y \<and> a < Suc k) then m ! b ! a else m ! a ! b)"
    if "a < length m" "b < length m" for a b
    using sw(3) [of a b] that IH(2) IH(3) [of a b] IH(3) [of y k] IH(3) [of k y] k Suc.prems assms(2)
    by (auto simp: less_Suc_eq)
  ultimately show ?case
    using sw(1,2) IH(2) by simp
qed

lemma transpose_in_place_spec_aux:
  assumes "square m" "k \<le> length m"
  shows "square (foldl transpose_row m [0..<k]) \<and>
     length (foldl transpose_row m [0..<k]) = length m \<and>
     (\<forall>a<length m. \<forall>b<length m. foldl transpose_row m [0..<k] ! a ! b =
        (if a < k \<and> b < k then m ! b ! a else m ! a ! b))"
  using assms(2)
proof (induction k)
  case 0
  show ?case using assms(1) by simp
next
  case (Suc k)
  let ?u = "foldl transpose_row m [0..<k]"
  from Suc have IH: "square ?u" "length ?u = length m"
    "\<And>a b. a < length m \<Longrightarrow> b < length m \<Longrightarrow> ?u ! a ! b =
        (if a < k \<and> b < k then m ! b ! a else m ! a ! b)"
    by simp_all
  have k: "k < length ?u" "k < length m" using Suc.prems IH(2) by simp_all
  from transpose_row_spec [OF IH(1) k(1) order_refl]
  have row: "square (transpose_row ?u k)" "length (transpose_row ?u k) = length m"
    "\<And>a b. a < length m \<Longrightarrow> b < length m \<Longrightarrow> transpose_row ?u k ! a ! b =
        (if (a = k \<and> b < k) \<or> (b = k \<and> a < k) then ?u ! b ! a else ?u ! a ! b)"
    unfolding transpose_row_def IH(2) by simp_all
  have "foldl transpose_row m [0..<Suc k] = transpose_row ?u k"
    by simp
  moreover have "transpose_row ?u k ! a ! b =
        (if a < Suc k \<and> b < Suc k then m ! b ! a else m ! a ! b)"
    if "a < length m" "b < length m" for a b
    using row(3) [OF that] IH(3) [OF that] IH(3) [OF that(2,1)] k
    by (auto simp: less_Suc_eq)
  ultimately show ?case
    using row(1,2) by simp
qed

lemma transpose_in_place_spec:
  assumes "square m"
  shows "square (transpose_in_place m)" "length (transpose_in_place m) = length m"
    and "\<And>a b. a < length m \<Longrightarrow> b < length m \<Longrightarrow> transpose_in_place m ! a ! b = m ! b ! a"
  using transpose_in_place_spec_aux [OF assms order_refl]
  by (simp_all add: transpose_in_place_def)

lemma transpose_in_place_eq:
  assumes "square m"
  shows "transpose_in_place m = map (\<lambda>a. map (\<lambda>b. m ! b ! a) [0..<length m]) [0..<length m]"
proof (rule nth_equalityI)
  show "length (transpose_in_place m) = length (map (\<lambda>a. map (\<lambda>b. m ! b ! a) [0..<length m]) [0..<length m])"
    using transpose_in_place_spec(2) [OF assms] by simp
next
  fix a assume "a < length (transpose_in_place m)"
  then have a: "a < length m" using transpose_in_place_spec(2) [OF assms] by simp
  have "transpose_in_place m ! a = map (\<lambda>b. m ! b ! a) [0..<length m]"
  proof (rule nth_equalityI)
    show "length (transpose_in_place m ! a) = length (map (\<lambda>b. m ! b ! a) [0..<length m])"
      using square_nth [OF transpose_in_place_spec(1) [OF assms], of a] a
        transpose_in_place_spec(2) [OF assms] by simp
  next
    fix b assume "b < length (transpose_in_place m ! a)"
    then have "b < length m"
      using square_nth [OF transpose_in_place_spec(1) [OF assms], of a] a
        transpose_in_place_spec(2) [OF assms] by simp
    then show "transpose_in_place m ! a ! b = map (\<lambda>b. m ! b ! a) [0..<length m] ! b"
      using transpose_in_place_spec(3) [OF assms a] by simp
  qed
  then show "transpose_in_place m ! a = map (\<lambda>a. map (\<lambda>b. m ! b ! a) [0..<length m]) [0..<length m] ! a"
    using a by simp
qed


lemma square_eqI:
  assumes "square m" "square m'" "length m' = length m"
    and "\<And>a b. a < length m \<Longrightarrow> b < length m \<Longrightarrow> m' ! a ! b = m ! a ! b"
  shows "m' = m"
proof (rule nth_equalityI)
  show "length m' = length m" by fact
next
  fix a assume "a < length m'"
  then have a: "a < length m" using assms(3) by simp
  show "m' ! a = m ! a"
  proof (rule nth_equalityI)
    show "length (m' ! a) = length (m ! a)"
      using square_nth [OF assms(1) a] square_nth [OF assms(2), of a] a assms(3) by simp
  next
    fix b assume "b < length (m' ! a)"
    then have "b < length m"
      using square_nth [OF assms(2), of a] a assms(3) by simp
    then show "m' ! a ! b = m ! a ! b" using assms(4) a by simp
  qed
qed

lemma rotateMatrix_spec:
  assumes "square m"
  shows "square (rotateMatrix m dir)" "length (rotateMatrix m dir) = length m"
    and "\<And>a b. a < length m \<Longrightarrow> b < length m \<Longrightarrow>
      rotateMatrix m dir ! a ! b =
        (if dir > 0 then m ! (length m - 1 - b) ! a else m ! b ! (length m - 1 - a))"
proof -
  note t = transpose_in_place_spec [OF assms]
  show "length (rotateMatrix m dir) = length m"
    using t(2) by (simp add: rotateMatrix_def Let_def)
  show "square (rotateMatrix m dir)"
    using t(1,2) by (auto simp: rotateMatrix_def Let_def square_def list_all_iff)
  fix a b assume ab: "a < length m" "b < length m"
  have la: "length (transpose_in_place m ! a) = length m"
    using square_nth [OF t(1), of a] ab t(2) by simp
  show "rotateMatrix m dir ! a ! b =
        (if dir > 0 then m ! (length m - 1 - b) ! a else m ! b ! (length m - 1 - a))"
  proof (cases "dir > 0")
    case True
    then have "rotateMatrix m dir ! a ! b = rev (transpose_in_place m ! a) ! b"
      using ab t(2) by (simp add: rotateMatrix_def Let_def)
    also have "\<dots> = transpose_in_place m ! a ! (length m - 1 - b)"
      using ab la by (simp add: rev_nth)
    also have "\<dots> = m ! (length m - 1 - b) ! a"
      using ab by (intro t(3)) simp_all
    finally show ?thesis using True by simp
  next
    case False
    then have "rotateMatrix m dir ! a ! b = rev (transpose_in_place m) ! a ! b"
      by (simp add: rotateMatrix_def Let_def)
    also have "\<dots> = transpose_in_place m ! (length m - 1 - a) ! b"
      using ab t(2) by (simp add: rev_nth)
    also have "\<dots> = m ! b ! (length m - 1 - a)"
      using ab by (intro t(3)) simp_all
    finally show ?thesis using False by simp
  qed
qed

text \<open>
  C8. On a square matrix, \<open>rotateMatrix\<close> with the same direction applied four times
  gives the matrix back, for either direction; one application is the transposed matrix
  with each row reversed when \<open>dir > 0\<close> (clockwise) and with the rows in reverse order
  otherwise (counter-clockwise).
\<close>

theorem rotateMatrix_four_times:
  assumes "square m"
  shows "rotateMatrix (rotateMatrix (rotateMatrix (rotateMatrix m dir) dir) dir) dir = m \<and>
     rotateMatrix m dir =
      (let t = map (\<lambda>a. map (\<lambda>b. m ! b ! a) [0..<length m]) [0..<length m]
       in if dir > 0 then map rev t else rev t)"
proof (rule conjI)
  let ?n = "length m"
  let ?r1 = "rotateMatrix m dir"
  let ?r2 = "rotateMatrix ?r1 dir"
  let ?r3 = "rotateMatrix ?r2 dir"
  let ?r4 = "rotateMatrix ?r3 dir"
  note r1 = rotateMatrix_spec [OF assms, where dir = dir]
  note r2 = rotateMatrix_spec [OF r1(1), where dir = dir, unfolded r1(2)]
  note r3 = rotateMatrix_spec [OF r2(1), where dir = dir, unfolded r2(2)]
  note r4 = rotateMatrix_spec [OF r3(1), where dir = dir, unfolded r3(2)]
  have inv: "?n - 1 - (?n - 1 - i) = i" "?n - 1 - i < ?n" if "i < ?n" for i
    using that by simp_all
  have "?r4 ! a ! b = m ! a ! b" if ab: "a < ?n" "b < ?n" for a b
  proof (cases "dir > 0")
    case True
    have "?r4 ! a ! b = ?r3 ! (?n - 1 - b) ! a"
      using r4(3) [OF ab] True by simp
    also have "\<dots> = ?r2 ! (?n - 1 - a) ! (?n - 1 - b)"
      using r3(3) [OF inv(2) [OF ab(2)] ab(1)] True by simp
    also have "\<dots> = ?r1 ! (?n - 1 - (?n - 1 - b)) ! (?n - 1 - a)"
      using r2(3) [OF inv(2) [OF ab(1)] inv(2) [OF ab(2)]] True by simp
    also have "\<dots> = ?r1 ! b ! (?n - 1 - a)"
      using inv(1) [OF ab(2)] by simp
    also have "\<dots> = m ! (?n - 1 - (?n - 1 - a)) ! b"
      using r1(3) [OF ab(2) inv(2) [OF ab(1)]] True by simp
    also have "\<dots> = m ! a ! b"
      using inv(1) [OF ab(1)] by simp
    finally show ?thesis .
  next
    case False
    have "?r4 ! a ! b = ?r3 ! b ! (?n - 1 - a)"
      using r4(3) [OF ab] False by simp
    also have "\<dots> = ?r2 ! (?n - 1 - a) ! (?n - 1 - b)"
      using r3(3) [OF ab(2) inv(2) [OF ab(1)]] False by simp
    also have "\<dots> = ?r1 ! (?n - 1 - b) ! (?n - 1 - (?n - 1 - a))"
      using r2(3) [OF inv(2) [OF ab(1)] inv(2) [OF ab(2)]] False by simp
    also have "\<dots> = ?r1 ! (?n - 1 - b) ! a"
      using inv(1) [OF ab(1)] by simp
    also have "\<dots> = m ! a ! (?n - 1 - (?n - 1 - b))"
      using r1(3) [OF inv(2) [OF ab(2)] ab(1)] False by simp
    also have "\<dots> = m ! a ! b"
      using inv(1) [OF ab(2)] by simp
    finally show ?thesis .
  qed
  then show "?r4 = m"
    using assms r4(1,2) by (intro square_eqI) simp_all
  show "rotateMatrix m dir =
      (let t = map (\<lambda>a. map (\<lambda>b. m ! b ! a) [0..<length m]) [0..<length m]
       in if dir > 0 then map rev t else rev t)"
    unfolding rotateMatrix_def transpose_in_place_eq [OF assms] ..
qed

theorem rotateMatrix_four_times_witness:
  "square (createPiece KT) \<and>
   rotateMatrix (createPiece KT) 1 = [[0,1,0],[0,1,1],[0,1,0]] \<and>
   rotateMatrix (createPiece KT) (- 1) = [[0,1,0],[1,1,0],[0,1,0]] \<and>
   rotateMatrix (rotateMatrix (rotateMatrix (rotateMatrix (createPiece KT) 1) 1) 1) 1 = createPiece KT"
proof -
  have h: "square (createPiece KT)" by (simp add: square_def)
  have cw: "rotateMatrix (createPiece KT) 1 = [[0,1,0],[0,1,1],[0,1,0]]"
    unfolding rotateMatrix_four_times [OF h, THEN conjunct2] by (simp add: upt_rec)
  have ccw: "rotateMatrix (createPiece KT) (- 1) = [[0,1,0],[1,1,0],[0,1,0]]"
    unfolding rotateMatrix_four_times [OF h, THEN conjunct2] by (simp add: upt_rec)
  show ?thesis using h cw ccw rotateMatrix_four_times [OF h, where dir = 1, THEN conjunct1] by simp
qed

section \<open>Properties of wall kicks\<close>

lemma kick_loop_find:
  "kick_loop s ox m ks =
     (case find (\<lambda>k. \<not> collide (arena s) (ox + k) (pos_y s) m) ks of
        Some k \<Rightarrow> (True, s\<lparr>pos_x := ox + k, lockTimer := 0, onGround := False\<rparr>)
      | None \<Rightarrow> (False, if ks = [] then s else s\<lparr>pos_x := ox + last ks\<rparr>))"
proof (induction ks arbitrary: s)
  case Nil
  show ?case by simp
next
  case (Cons k ks)
  show ?case
    by (simp add: Let_def Cons.IH split: option.splits)
qed

text \<open>
  C9. With a piece in play, \<open>rotatePlayer\<close> rotates the shape and tries the horizontal
  offsets \<open>0, +1, -1, +2, -2\<close> in this order at the unchanged row. With the first offset
  that does not collide the state is the old one with the rotated shape, the column moved
  by that offset, the lock timer at \<open>0\<close> and the ground flag cleared. When all five
  collide the state is the one before the call, shape and position included.
\<close>

theorem rotatePlayer_kicks:
  assumes "matrix s = Some old"
  shows "rotatePlayer s dir =
     (case find (\<lambda>k. \<not> collide (arena s) (pos_x s + k) (pos_y s) (rotateMatrix old dir))
             [0, 1, - 1, 2, - 2] of
        None \<Rightarrow> s
      | Some k \<Rightarrow> s\<lparr>matrix := Some (rotateMatrix old dir), pos_x := pos_x s + k,
                     lockTimer := 0, onGround := False\<rparr>)"
proof -
  let ?m = "rotateMatrix old dir"
  let ?P = "\<lambda>k. \<not> collide (arena s) (pos_x s + k) (pos_y s) ?m"
  have restore: "s\<lparr>matrix := Some old, pos_x := pos_x s\<rparr> = s"
    using assms by simp
  show ?thesis
  proof (cases "find ?P [0, 1, - 1, 2, - 2]")
    case None
    then show ?thesis
      using assms restore
      by (simp add: rotatePlayer_def Let_def kick_loop_find kicks_def del: find.simps)
  next
    case (Some k)
    then show ?thesis
      using assms
      by (simp add: rotatePlayer_def Let_def kick_loop_find kicks_def del: find.simps)
  qed
qed

theorem rotatePlayer_kicks_witness:
  "matrix i_piece_game = Some (replicate 4 [0,0,1,0]) \<and>
   rotatePlayer i_piece_game 1 =
     i_piece_game\<lparr>matrix := Some [[0,0,0,0],[0,0,0,0],[1,1,1,1],[0,0,0,0]], pos_x := 0,
                  lockTimer := 0, onGround := False\<rparr>"
proof -
  have h: "matrix i_piece_game = Some (replicate 4 [0,0,1,0])"
    by (simp add: i_piece_game_def)
  have r: "rotateMatrix (replicate 4 [0,0,1,0]) 1 = [[0,0,0,0],[0,0,0,0],[1,1,1,1],[0,0,0,0]]"
    by code_simp
  have a: "arena i_piece_game = createMatrix COLS ROWS" "pos_x i_piece_game = - 2"
    "pos_y i_piece_game = 5"
    by (simp_all add: i_piece_game_def initial_game_def)
  have f: "find (\<lambda>k. \<not> collide (createMatrix COLS ROWS) (- 2 + k) 5
                [[0,0,0,0],[0,0,0,0],[1,1,1,1],[0,0,0,0]]) [0, 1, - 1, 2, - 2] = Some 2"
    by code_simp
  have "rotatePlayer i_piece_game 1 =
     i_piece_game\<lparr>matrix := Some [[0,0,0,0],[0,0,0,0],[1,1,1,1],[0,0,0,0]], pos_x := - 2 + 2,
                  lockTimer := 0, onGround := False\<rparr>"
    using rotatePlayer_kicks [OF h, of 1] unfolding r a f by (simp only: option.case)
  then show ?thesis
    using h by simp
qed

section \<open>Properties of the queue and of spawning\<close>

lemma bag_draw_length: "length (nextQueue (bag_draw s)) = Suc (length (nextQueue s))"
  by (simp add: bag_draw_def shuffleBag_def Let_def split: prod.splits option.splits)

text \<open>
  The loop of the first declaration leaves at least \<open>QUEUE_SIZE\<close> kinds in the queue; the
  function the program calls leaves the queue as it finds it.
\<close>

lemma refillQueue_first_length: "QUEUE_SIZE \<le> length (nextQueue (refillQueue_first s))"
proof (induction s rule: refillQueue_first.induct)
  case (1 s)
  show ?case
  proof (cases "length (nextQueue s) < QUEUE_SIZE")
    case True
    then have "refillQueue_first s = refillQueue_first (bag_draw s)"
      by (subst refillQueue_first.simps) simp
    with "1.IH" [OF True] show ?thesis by simp
  next
    case False
    then have "refillQueue_first s = s" by (subst refillQueue_first.simps) simp
    with False show ?thesis by simp
  qed
qed

lemma PIECE_IDS_pos: "PIECE_IDS type \<noteq> 0"
  by (cases type) simp_all

lemma spawnPlayer_empty: "nextQueue s = [] \<Longrightarrow> spawnPlayer s = Raises s"
  by (simp add: spawnPlayer_def refillQueue_def)

lemma spawnPlayer_queued:
  assumes "nextQueue s = type # rest"
  shows "spawnPlayer s =
     (let m = map (map (\<lambda>v. if v \<noteq> 0 then PIECE_IDS type else v)) (createPiece type);
          s3 = s\<lparr>nextQueue := rest, matrix := Some m, player_id := PIECE_IDS type,
                 pos_x := int (COLS div 2) - int (length (m ! 0) div 2), pos_y := - 1,
                 holdUsed := False, lockTimer := 0, onGround := False\<rparr>
      in Returns (if collide (arena s) (pos_x s3) (- 1) m
                  then s3\<lparr>gameOver := True, timeouts := timeouts s @ [GAME_OVER_DWELL]\<rparr>
                  else s3))"
  using assms by (simp add: spawnPlayer_def refillQueue_def Let_def PIECE_IDS_pos)

lemma resetGame_raises:
  "resetGame s =
     Raises (s\<lparr>arena := map (\<lambda>r. replicate (length r) 0) (arena s), nextQueue := [],
                bag := None, bag_index := 0, score := 0, lines := 0, level := 0,
                holdPiece := None, holdUsed := False, gameOver := False\<rparr>)"
  by (simp add: resetGame_def Let_def refillQueue_def spawnPlayer_empty)

lemma clear_wf: "wf_arena a \<Longrightarrow> map (\<lambda>r. replicate (length r) 0) a = createMatrix COLS ROWS"
  by (auto simp: wf_arena_def createMatrix_def list_all_iff intro!: nth_equalityI)

text \<open>
  C6. The spawn the claim describes does not take place in the program. \<open>refillQueue()\<close>
  runs the empty body of the second declaration and the queue stays empty, and on the
  empty queue \<open>spawnPlayer\<close> throws a TypeError on the missing shape before it has set
  the column, the row or any flag. Only with a kind at the front of the queue would it
  place the piece as the claim says: stamped, at column
  \<open>floor(COLS / 2) - floor(width / 2)\<close> and row \<open>-1\<close>, with the hold-used flag, the lock
  timer and the ground flag cleared, and with the game-over flag set and the reset
  scheduled when it collides there. So \<open>init()\<close> throws at the first spawn and requests
  no frame, and \<open>resetGame()\<close>, which empties the queue itself, clears the board and the
  score and then throws in every state, also when it runs as the callback scheduled at a
  game over.
\<close>

theorem spawnPlayer_raises:
  "refillQueue s = s \<and>
   spawnPlayer s =
     (case nextQueue s of
        [] \<Rightarrow> Raises s
      | type # rest \<Rightarrow>
          let m = map (map (\<lambda>v. if v \<noteq> 0 then PIECE_IDS type else v)) (createPiece type);
              s3 = s\<lparr>nextQueue := rest, matrix := Some m, player_id := PIECE_IDS type,
                     pos_x := int (COLS div 2) - int (length (m ! 0) div 2), pos_y := - 1,
                     holdUsed := False, lockTimer := 0, onGround := False\<rparr>
          in Returns (if collide (arena s) (pos_x s3) (- 1) m
                      then s3\<lparr>gameOver := True, timeouts := timeouts s @ [GAME_OVER_DWELL]\<rparr>
                      else s3)) \<and>
   init (s\<lparr>nextQueue := []\<rparr>) now = Raises (s\<lparr>nextQueue := [], bag := None, bag_index := 0\<rparr>) \<and>
   resetGame s =
     Raises (s\<lparr>arena := map (\<lambda>r. replicate (length r) 0) (arena s), nextQueue := [],
                bag := None, bag_index := 0, score := 0, lines := 0, level := 0,
                holdPiece := None, holdUsed := False, gameOver := False\<rparr>) \<and>
   run_timeout (s\<lparr>timeouts := d # ds\<rparr>) = resetGame (s\<lparr>timeouts := ds\<rparr>)"
proof -
  have sp: "spawnPlayer s =
     (case nextQueue s of
        [] \<Rightarrow> Raises s
      | type # rest \<Rightarrow>
          let m = map (map (\<lambda>v. if v \<noteq> 0 then PIECE_IDS type else v)) (createPiece type);
              s3 = s\<lparr>nextQueue := rest, matrix := Some m, player_id := PIECE_IDS type,
                     pos_x := int (COLS div 2) - int (length (m ! 0) div 2), pos_y := - 1,
                     holdUsed := False, lockTimer := 0, onGround := False\<rparr>
          in Returns (if collide (arena s) (pos_x s3) (- 1) m
                      then s3\<lparr>gameOver := True, timeouts := timeouts s @ [GAME_OVER_DWELL]\<rparr>
                      else s3))"
  proof (cases "nextQueue s")
    case Nil
    then show ?thesis by (simp add: spawnPlayer_empty)
  next
    case (Cons type rest)
    from spawnPlayer_queued [OF this] show ?thesis
      using Cons by simp
  qed
  have i: "init (s\<lparr>nextQueue := []\<rparr>) now
      = Raises (s\<lparr>nextQueue := [], bag := None, bag_index := 0\<rparr>)"
    by (simp add: init_def refillQueue_def spawnPlayer_empty)
  have r: "refillQueue s = s"
    by (simp add: refillQueue_def)
  have t: "run_timeout (s\<lparr>timeouts := d # ds\<rparr>) = resetGame (s\<lparr>timeouts := ds\<rparr>)"
    by (simp add: run_timeout_def)
  show ?thesis
    by (intro conjI) (fact r sp i resetGame_raises t)+
qed

theorem spawnPlayer_raises_witness:
  "matrix start_game = None \<and> nextQueue start_game = [] \<and>
   refillQueue start_game = start_game \<and> spawnPlayer start_game = Raises start_game \<and>
   init start_game 0 = Raises start_game \<and>
   nextQueue topped_game = [] \<and> spawnPlayer topped_game = Raises topped_game \<and>
   resetGame topped_game = Raises (topped_game\<lparr>arena := createMatrix COLS ROWS, score := 0\<rparr>) \<and>
   run_timeout (topped_game\<lparr>timeouts := [GAME_OVER_DWELL]\<rparr>)
     = Raises (topped_game\<lparr>arena := createMatrix COLS ROWS, score := 0\<rparr>)"
proof -
  have q: "nextQueue start_game = []" "nextQueue topped_game = []" "matrix start_game = None"
    by (simp_all add: start_game_def topped_game_def initial_game_def)
  have e: "start_game\<lparr>nextQueue := []\<rparr> = start_game"
    "start_game\<lparr>bag := None, bag_index := 0\<rparr> = start_game"
    by (simp_all add: start_game_def initial_game_def)
  have w: "wf_arena (arena topped_game)"
    by code_simp
  have c: "topped_game\<lparr>arena := map (\<lambda>r. replicate (length r) 0) (arena topped_game),
             nextQueue := [], bag := None, bag_index := 0, score := 0, lines := 0, level := 0,
             holdPiece := None, holdUsed := False, gameOver := False\<rparr>
        = topped_game\<lparr>arena := createMatrix COLS ROWS, score := 0\<rparr>"
    unfolding clear_wf [OF w] by (simp add: topped_game_def initial_game_def)
  note a = spawnPlayer_raises [of start_game 0 GAME_OVER_DWELL "[]"]
  note b = spawnPlayer_raises [of topped_game 0 GAME_OVER_DWELL "[]"]
  from a have a1: "refillQueue start_game = start_game" by (rule conjunct1)
  from a have a2: "spawnPlayer start_game = Raises start_game"
    unfolding q by simp
  from a have a3: "init start_game 0 = Raises start_game"
    unfolding e by simp
  from b have b2: "spawnPlayer topped_game = Raises topped_game"
    unfolding q by simp
  from b have b3: "resetGame topped_game
      = Raises (topped_game\<lparr>arena := createMatrix COLS ROWS, score := 0\<rparr>)"
    unfolding c by simp
  from b have "run_timeout (topped_game\<lparr>timeouts := [GAME_OVER_DWELL]\<rparr>)
      = resetGame (topped_game\<lparr>timeouts := []\<rparr>)"
    by simp
  also have "topped_game\<lparr>timeouts := []\<rparr> = topped_game"
    by (simp add: topped_game_def initial_game_def)
  finally have b4: "run_timeout (topped_game\<lparr>timeouts := [GAME_OVER_DWELL]\<rparr>)
      = Raises (topped_game\<lparr>arena := createMatrix COLS ROWS, score := 0\<rparr>)"
    using b3 by simp
  show ?thesis
    by (intro conjI) (fact q a1 a2 a3 b2 b3 b4)+
qed

section \<open>Properties of the randomizer\<close>

lemma random_index:
  assumes "random_ok rnd"
  shows "nat \<lfloor>rnd k * (real (Suc i) + 1)\<rfloor> \<le> Suc i"
proof -
  from assms have r: "0 \<le> rnd k" "rnd k < 1" by (simp_all add: random_ok_def)
  then have "rnd k * (real (Suc i) + 1) < real (Suc i) + 1"
    by (simp add: mult_less_cancel_right2)
  then have "\<lfloor>rnd k * (real (Suc i) + 1)\<rfloor> < int (Suc i) + 1"
    by (simp add: floor_less_iff)
  then show ?thesis by linarith
qed

lemma shuffle_loop_perm:
  assumes "random_ok rnd"
  shows "i < length b \<Longrightarrow>
     mset (fst (shuffle_loop rnd k b i)) = mset b \<and> snd (shuffle_loop rnd k b i) = k + i"
proof (induction i arbitrary: k b)
  case 0
  show ?case by simp
next
  case (Suc i)
  let ?j = "nat \<lfloor>rnd k * (real (Suc i) + 1)\<rfloor>"
  let ?b = "b[Suc i := b ! ?j, ?j := b ! Suc i]"
  have j: "?j < length b"
    using random_index [OF assms, of k i] Suc.prems by simp
  have "mset ?b = mset b"
    using mset_swap [OF j Suc.prems] by simp
  moreover have "i < length ?b" using Suc.prems by simp
  ultimately show ?case
    using Suc.IH [of ?b "Suc k"] by (simp add: Let_def)
qed

lemma length_all_kinds: "length all_kinds = 7"
  by (simp add: all_kinds_def)

lemma nth_bag_perm:
  assumes "random_ok (random_source s)"
  shows "mset (nth_bag s i) = mset all_kinds"
proof -
  have "length all_kinds - 1 < length all_kinds"
    by (simp add: length_all_kinds)
  from shuffle_loop_perm [OF assms this] show ?thesis
    unfolding nth_bag_def by blast
qed

lemma UNIV_kinds: "set all_kinds = UNIV"
proof -
  have "k \<in> set all_kinds" for k
    by (cases k) (simp_all add: all_kinds_def)
  then show ?thesis by blast
qed

lemma nth_bag_props:
  assumes "random_ok (random_source s)"
  shows "length (nth_bag s i) = 7" "distinct (nth_bag s i)" "set (nth_bag s i) = UNIV"
proof -
  note p = nth_bag_perm [OF assms, of i]
  show "length (nth_bag s i) = 7"
    using mset_eq_length [OF p] by (simp only: length_all_kinds)
  have "distinct all_kinds" by (simp add: all_kinds_def)
  then show "distinct (nth_bag s i)"
    using mset_eq_imp_distinct_iff [OF p] by simp
  show "set (nth_bag s i) = UNIV"
    using mset_eq_setD [OF p] UNIV_kinds by simp
qed

lemma bag_draw_fresh:
  assumes "bag_exhausted s"
  shows "bag_draw s = s\<lparr>random_count := random_count s + 6, bag := Some (nth_bag s 0),
                         bag_index := 1, nextQueue := nextQueue s @ [nth_bag s 0 ! 0]\<rparr>"
    (is "_ = ?r")
proof -
  obtain b k where sh: "shuffle_loop (random_source s) (random_count s) all_kinds (length all_kinds - 1) = (b, k)"
    by (cases "shuffle_loop (random_source s) (random_count s) all_kinds (length all_kinds - 1)")
  have k: "k = random_count s + 6"
  proof -
    have "\<And>rnd k b i. snd (shuffle_loop rnd k b i) = k + i"
    proof -
      fix rnd :: "nat \<Rightarrow> real" and k b i
      show "snd (shuffle_loop rnd k b i) = k + i"
        by (induction i arbitrary: k b) (simp_all add: Let_def)
    qed
    from this [of "random_source s" "random_count s" all_kinds "length all_kinds - 1"]
    have "snd (b, k) = random_count s + (length all_kinds - 1)"
      unfolding sh .
    then show ?thesis by (simp add: length_all_kinds)
  qed
  have b: "b = nth_bag s 0" using sh by (simp add: nth_bag_def)
  have f: "shuffleBag s = (nth_bag s 0, s\<lparr>random_count := random_count s + 6\<rparr>)"
    unfolding shuffleBag_def sh Let_def using k b by simp
  show ?thesis
    using assms unfolding bag_draw_def f Let_def bag_exhausted_def
    by (simp split: option.splits)
qed

lemma bag_draw_next:
  assumes "bag s = Some b" "bag_index s < length b"
  shows "bag_draw s = s\<lparr>bag_index := bag_index s + 1, nextQueue := nextQueue s @ [b ! bag_index s]\<rparr>"
  using assms by (simp add: bag_draw_def Let_def)

lemma bag_draw_run:
  assumes "bag s = Some b"
  shows "bag_index s + n \<le> length b \<Longrightarrow>
     (bag_draw ^^ n) s = s\<lparr>bag_index := bag_index s + n,
                             nextQueue := nextQueue s @ take n (drop (bag_index s) b)\<rparr>"
proof (induction n)
  case 0
  show ?case by simp
next
  case (Suc n)
  let ?t = "s\<lparr>bag_index := bag_index s + n, nextQueue := nextQueue s @ take n (drop (bag_index s) b)\<rparr>"
  from Suc have run: "(bag_draw ^^ n) s = ?t" by simp
  have "bag ?t = Some b" "bag_index ?t < length b"
    using assms Suc.prems by simp_all
  from bag_draw_next [OF this]
  have "bag_draw ?t = ?t\<lparr>bag_index := bag_index ?t + 1, nextQueue := nextQueue ?t @ [b ! bag_index ?t]\<rparr>" .
  moreover have "take (Suc n) (drop (bag_index s) b) = take n (drop (bag_index s) b) @ [b ! (bag_index s + n)]"
    using Suc.prems by (simp add: take_Suc_conv_app_nth)
  ultimately show ?case
    using run by simp
qed


lemma bag_draw_seven:
  assumes "bag_exhausted s" and "random_ok (random_source s)"
  shows "(bag_draw ^^ 7) s = s\<lparr>random_count := random_count s + 6, bag := Some (nth_bag s 0),
                                 bag_index := 7, nextQueue := nextQueue s @ nth_bag s 0\<rparr>"
proof -
  let ?b = "nth_bag s 0"
  let ?t = "s\<lparr>random_count := random_count s + 6, bag := Some ?b,
                         bag_index := 1, nextQueue := nextQueue s @ [?b ! 0]\<rparr>"
  note len = nth_bag_props(1) [OF assms(2), of 0]
  have "(bag_draw ^^ 7) s = (bag_draw ^^ 6) (bag_draw s)"
    by (simp add: eval_nat_numeral funpow_swap1)
  also have "\<dots> = (bag_draw ^^ 6) ?t"
    using bag_draw_fresh [OF assms(1)] by simp
  also have "\<dots> = ?t\<lparr>bag_index := bag_index ?t + 6,
                             nextQueue := nextQueue ?t @ take 6 (drop (bag_index ?t) ?b)\<rparr>"
    by (rule bag_draw_run) (simp_all add: len)
  also have "\<dots> = s\<lparr>random_count := random_count s + 6, bag := Some ?b,
                                 bag_index := 7, nextQueue := nextQueue s @ ?b\<rparr>"
  proof -
    have "?b = ?b ! 0 # drop 1 ?b"
      using len by (cases ?b) simp_all
    moreover have "take 6 (drop 1 ?b) = drop 1 ?b"
      using len by simp
    ultimately have "[?b ! 0] @ take 6 (drop 1 ?b) = ?b" by simp
    then show ?thesis by simp
  qed
  finally show ?thesis .
qed

lemma after_seven:
  assumes "bag_exhausted s" and "random_ok (random_source s)"
  shows "bag_exhausted ((bag_draw ^^ 7) s)" "random_ok (random_source ((bag_draw ^^ 7) s))"
    "nth_bag ((bag_draw ^^ 7) s) i = nth_bag s (Suc i)"
    "nextQueue ((bag_draw ^^ 7) s) = nextQueue s @ nth_bag s 0"
  unfolding bag_draw_seven [OF assms]
  using assms(2) nth_bag_props(1) [OF assms(2), of 0]
  by (simp_all add: bag_exhausted_def nth_bag_def add.assoc)

lemma draws_bags:
  assumes "random_ok (random_source s)"
  shows "bag_exhausted s \<Longrightarrow>
     nextQueue ((bag_draw ^^ (7 * k)) s) = nextQueue s @ concat (map (nth_bag s) [0..<k]) \<and>
     bag_exhausted ((bag_draw ^^ (7 * k)) s)"
  using assms
proof (induction k arbitrary: s)
  case 0
  then show ?case by simp
next
  case (Suc k)
  let ?s7 = "(bag_draw ^^ 7) s"
  note a = after_seven [OF Suc.prems]
  have "7 * Suc k = 7 * k + 7" by simp
  then have "(bag_draw ^^ (7 * Suc k)) s = (bag_draw ^^ (7 * k)) ?s7"
    by (simp only: funpow_add o_apply)
  moreover have "map (nth_bag s) [0..<Suc k] = nth_bag s 0 # map (nth_bag ?s7) [0..<k]"
    by (simp add: a(3) upt_conv_Cons map_Suc_upt [symmetric] del: upt_Suc)
  ultimately show ?case
    using Suc.IH [OF a(1) a(2)] a(4) by simp
qed

lemma bag_draw_appends: "\<exists>x. nextQueue (bag_draw s) = nextQueue s @ [x]"
  by (simp add: bag_draw_def shuffleBag_def Let_def split: prod.splits option.splits)

lemma funpow_appends:
  "\<exists>xs. length xs = n \<and> nextQueue ((bag_draw ^^ n) s) = nextQueue s @ xs"
proof (induction n)
  case 0
  show ?case by simp
next
  case (Suc n)
  then obtain xs where xs: "length xs = n" "nextQueue ((bag_draw ^^ n) s) = nextQueue s @ xs"
    by blast
  from bag_draw_appends [of "(bag_draw ^^ n) s"] obtain x where
    "nextQueue (bag_draw ((bag_draw ^^ n) s)) = nextQueue ((bag_draw ^^ n) s) @ [x]"
    by blast
  with xs have "length (xs @ [x]) = Suc n \<and>
      nextQueue ((bag_draw ^^ Suc n) s) = nextQueue s @ (xs @ [x])"
    by simp
  then show ?case by blast
qed

lemma length_draws: "length (draws n s) = n"
  using funpow_appends [of n s] by (auto simp: draws_def)

lemma draws_prefix: "draws n s = take n (draws (n + m) s)"
proof -
  from funpow_appends [of n s] obtain xs where
    xs: "length xs = n" "nextQueue ((bag_draw ^^ n) s) = nextQueue s @ xs"
    by blast
  from funpow_appends [of m "(bag_draw ^^ n) s"] obtain ys where
    ys: "nextQueue ((bag_draw ^^ m) ((bag_draw ^^ n) s)) = nextQueue ((bag_draw ^^ n) s) @ ys"
    by blast
  have "(bag_draw ^^ (n + m)) s = (bag_draw ^^ m) ((bag_draw ^^ n) s)"
    by (simp only: add.commute [of n m] funpow_add o_apply)
  then show ?thesis
    using xs ys by (simp add: draws_def)
qed

lemma length_concat_bags:
  assumes "random_ok (random_source s)"
  shows "length (concat (map (nth_bag s) [0..<k])) = 7 * k"
  by (induction k) (simp_all add: nth_bag_props(1) [OF assms])

lemma draws_block:
  assumes "random_ok (random_source s)" and "bag_exhausted s" and "7 * i + 7 \<le> n"
  shows "take 7 (drop (7 * i) (draws n s)) = nth_bag s i"
proof -
  obtain m where n: "n = 7 * Suc i + m"
    using assms(3) by (metis add.commute le_Suc_ex mult_Suc_right)
  have "draws (7 * Suc i) s = concat (map (nth_bag s) [0..<Suc i])"
    using draws_bags [OF assms(1,2), of "Suc i"] by (simp add: draws_def)
  then have "take (7 * Suc i) (draws n s) = concat (map (nth_bag s) [0..<i]) @ nth_bag s i"
    using draws_prefix [of "7 * Suc i" s m] n by simp
  then have "drop (7 * i) (take (7 * Suc i) (draws n s)) = nth_bag s i"
    using length_concat_bags [OF assms(1), of i] by simp
  moreover have "drop (7 * i) (take (7 * Suc i) (draws n s)) = take 7 (drop (7 * i) (draws n s))"
    by (simp add: drop_take)
  ultimately show ?thesis by simp
qed




lemma repeat_bags:
  "nth_bag (initial_game 0 repeat_source) 0 = [KI, KL, KJ, KO, KT, KS, KZ]"
  "nth_bag (initial_game 0 repeat_source) (Suc 0) = [KZ, KL, KJ, KO, KT, KS, KI]"
  by (simp_all add: nth_bag_def initial_game_def all_kinds_def eval_nat_numeral repeat_source_def)

lemma bag_boundary_repeat:
  "random_ok (random_source (initial_game 0 repeat_source)) \<and>
   bag_exhausted (initial_game 0 repeat_source) \<and>
   take 2 (drop 6 (draws 14 (initial_game 0 repeat_source))) = [KZ, KZ]"
proof -
  let ?s = "initial_game 0 repeat_source"
  have h1: "random_ok (random_source ?s)"
    by (simp add: initial_game_def random_ok_def repeat_source_def)
  have h2: "bag_exhausted ?s"
    by (simp add: initial_game_def bag_exhausted_def)
  have "take 7 (drop (7 * 0) (draws 14 ?s)) = nth_bag ?s 0"
    "take 7 (drop (7 * 1) (draws 14 ?s)) = nth_bag ?s 1"
    by (rule draws_block [OF h1 h2]; simp)+
  then have b: "take 7 (draws 14 ?s) = [KI, KL, KJ, KO, KT, KS, KZ]"
    "take 7 (drop 7 (draws 14 ?s)) = [KZ, KL, KJ, KO, KT, KS, KI]"
    by (simp_all add: repeat_bags)
  have "draws 14 ?s = take 7 (draws 14 ?s) @ take 7 (drop 7 (draws 14 ?s))"
    using length_draws [of 14 ?s] by simp
  then have "draws 14 ?s = [KI, KL, KJ, KO, KT, KS, KZ] @ [KZ, KL, KJ, KO, KT, KS, KI]"
    unfolding b .
  then show ?thesis
    using h1 h2 by simp
qed

section \<open>Properties of the numbers\<close>

text \<open>
  \<open>exponent x\<close> is the exponent of the binade of \<open>x\<close>; \<open>double x\<close> is within half a
  unit in the last place of \<open>x\<close>, and whole numbers below \<open>2 ^ 53\<close> in magnitude are
  doubles.
\<close>

lemma bit_length_less: "n < 2 ^ bit_length n"
proof (induction n rule: bit_length.induct)
  case (1 n)
  show ?case
  proof (cases "n = 0")
    case True
    then show ?thesis by (subst bit_length.simps) simp
  next
    case False
    from 1 [OF False] have "n div 2 < 2 ^ bit_length (n div 2)" .
    then have "n < 2 * 2 ^ bit_length (n div 2)" by linarith
    then show ?thesis using False by (subst bit_length.simps) simp
  qed
qed

lemma bit_length_ge: "0 < n \<Longrightarrow> 2 ^ (bit_length n - 1) \<le> n"
proof (induction n rule: bit_length.induct)
  case (1 n)
  then have n: "n \<noteq> 0" by simp
  show ?case
  proof (cases "n div 2 = 0")
    case True
    then have "bit_length (n div 2) = 0" by (subst bit_length.simps) simp
    then have "bit_length n = 1" using n by (subst bit_length.simps) simp
    then show ?thesis using n by simp
  next
    case False
    then have "0 < n div 2" by simp
    from 1(1) [OF n this] have ih: "2 ^ (bit_length (n div 2) - 1) \<le> n div 2" .
    have pos: "0 < bit_length (n div 2)"
      using False by (subst bit_length.simps) simp
    have "bit_length n - 1 = bit_length (n div 2)"
      using n by (subst bit_length.simps) simp
    also have "\<dots> = Suc (bit_length (n div 2) - 1)" using pos by simp
    finally have "(2::nat) ^ (bit_length n - 1) = 2 * 2 ^ (bit_length (n div 2) - 1)"
      by simp
    also have "\<dots> \<le> 2 * (n div 2)" using ih by simp
    also have "\<dots> \<le> n" by simp
    finally show ?thesis .
  qed
qed

lemma bit_length_pos: "0 < n \<Longrightarrow> 0 < bit_length n"
  by (subst bit_length.simps) simp

lemma exponent_bounds:
  assumes "x \<noteq> 0"
  shows "2 powi exponent x \<le> \<bar>x\<bar>" and "\<bar>x\<bar> < 2 powi (exponent x + 1)"
proof -
  show "2 powi exponent x \<le> \<bar>x\<bar>"
  proof (cases "1 \<le> \<bar>x\<bar>")
    case True
    let ?n = "nat \<lfloor>\<bar>x\<bar>\<rfloor>"
    have n: "0 < ?n" using True by simp
    have e: "exponent x = int (bit_length ?n - 1)"
      using True bit_length_pos [OF n] by (simp add: exponent_def)
    have "real (2 ^ (bit_length ?n - 1)) \<le> real ?n"
      using bit_length_ge [OF n] by (simp only: of_nat_le_iff)
    also have "\<dots> \<le> \<bar>x\<bar>" using True by simp
    finally show ?thesis unfolding e by (simp add: power_int_def)
  next
    case False
    let ?c = "nat \<lceil>1 / \<bar>x\<bar>\<rceil>"
    let ?k = "bit_length (?c - 1)"
    have y: "1 < 1 / \<bar>x\<bar>" using False assms by simp
    then have c: "2 \<le> ?c" by linarith
    have e: "exponent x = - int ?k"
      using False by (simp add: exponent_def)
    have "1 / \<bar>x\<bar> \<le> real ?c" using y by linarith
    also have "real ?c \<le> real (2 ^ ?k)"
      using bit_length_less [of "?c - 1"] by (simp only: of_nat_le_iff) linarith
    finally have "1 / \<bar>x\<bar> \<le> 2 ^ ?k" by simp
    then have "1 / 2 ^ ?k \<le> \<bar>x\<bar>"
      using assms by (simp add: field_simps)
    then show ?thesis unfolding e by (simp add: power_int_minus_divide)
  qed
  show "\<bar>x\<bar> < 2 powi (exponent x + 1)"
  proof (cases "1 \<le> \<bar>x\<bar>")
    case True
    let ?n = "nat \<lfloor>\<bar>x\<bar>\<rfloor>"
    have n: "0 < ?n" using True by simp
    have e: "exponent x + 1 = int (bit_length ?n)"
      using True bit_length_pos [OF n] by (simp add: exponent_def)
    have "\<bar>x\<bar> < real ?n + 1" by linarith
    also have "\<dots> \<le> real (2 ^ bit_length ?n)"
    proof -
      have "Suc ?n \<le> 2 ^ bit_length ?n"
        using bit_length_less [of ?n] by (simp only: Suc_le_eq)
      then have "real (Suc ?n) \<le> real (2 ^ bit_length ?n)"
        by (simp only: of_nat_le_iff)
      then show ?thesis by simp
    qed
    finally show ?thesis unfolding e by (simp add: power_int_def)
  next
    case False
    let ?c = "nat \<lceil>1 / \<bar>x\<bar>\<rceil>"
    let ?k = "bit_length (?c - 1)"
    have y: "1 < 1 / \<bar>x\<bar>" using False assms by simp
    then have c: "2 \<le> ?c" by linarith
    then have k: "0 < ?k" by (intro bit_length_pos) linarith
    have e: "exponent x + 1 = - int (?k - 1)"
      using False k by (simp add: exponent_def)
    have "real (2 ^ (?k - 1)) \<le> real (?c - 1)"
    proof -
      from c have "0 < ?c - 1" by linarith
      from bit_length_ge [OF this] show ?thesis by (simp only: of_nat_le_iff)
    qed
    also have "\<dots> < 1 / \<bar>x\<bar>" using c by linarith
    finally have "2 ^ (?k - 1) < 1 / \<bar>x\<bar>" by simp
    then have "\<bar>x\<bar> < 1 / 2 ^ (?k - 1)"
      using assms by (simp add: field_simps)
    then show ?thesis unfolding e by (simp add: power_int_minus_divide)
  qed
qed

lemma round_even_near: "\<bar>of_int (round_even x) - x\<bar> \<le> 1 / 2"
  unfolding round_even_def Let_def by (auto simp: abs_if) linarith+

lemma round_even_int: "round_even (of_int n) = n"
  by (simp add: round_even_def)

lemma double_error:
  assumes "x \<noteq> 0"
  shows "\<bar>double x - x\<bar> \<le> 2 powi (max (exponent x) (- 1022) - 53)"
proof -
  let ?E = "max (exponent x) (- 1022)"
  let ?q = "(2::real) powi (?E - 52)"
  have q: "0 < ?q" by simp
  have "double x - x = (of_int (round_even (x / ?q)) - x / ?q) * ?q"
    using assms q by (simp add: double_def Let_def algebra_simps)
  then have "\<bar>double x - x\<bar> = \<bar>of_int (round_even (x / ?q)) - x / ?q\<bar> * ?q"
    using q by (simp add: abs_mult)
  also have "\<dots> \<le> 1 / 2 * ?q"
    using round_even_near [of "x / ?q"] q by (intro mult_right_mono) simp_all
  also have "\<dots> = 2 powi (?E - 53)"
    by (simp add: power_int_diff)
  finally show ?thesis .
qed

lemma double_int:
  assumes "x \<in> \<int>" and "\<bar>x\<bar> < 2 ^ 53"
  shows "double x = x"
proof (cases "x = 0")
  case True
  then show ?thesis by (simp add: double_def)
next
  case False
  from assms(1) obtain n where n: "x = of_int n" by (auto elim: Ints_cases)
  have "2 powi exponent x \<le> \<bar>x\<bar>" by (rule exponent_bounds [OF False])
  with assms(2) have "(2::real) powi exponent x < 2 powi 53" by simp
  then have "exponent x < 53"
    by (rule power_int_le_imp_less_exp [rotated]) simp_all
  then have le: "exponent x \<le> 52" by simp
  have "1 \<le> \<bar>x\<bar>" using False n by (simp add: abs_if)
  moreover from this have "0 < bit_length (nat \<lfloor>\<bar>x\<bar>\<rfloor>)"
    by (intro bit_length_pos) simp
  ultimately have ge: "0 \<le> exponent x" by (simp add: exponent_def)
  let ?d = "nat (52 - exponent x)"
  have q: "2 powi (max (exponent x) (- 1022) - 52) = 1 / (2::real) ^ ?d"
    using le ge by (simp add: power_int_def max_def field_simps) 
  have "x / (1 / 2 ^ ?d) = of_int (n * 2 ^ ?d)"
    by (simp add: n)
  then have "round_even (x / (1 / 2 ^ ?d)) = n * 2 ^ ?d"
    by (simp only: round_even_int)
  then show ?thesis
    using False unfolding double_def Let_def q by (simp add: n)
qed

section \<open>Values on the example states\<close>

text \<open>
  Collisions, merges and sweeps on the example boards, the time per cell at the speeds
  used, and the rules that evaluate a call on an example state.
\<close>

lemma msPerCell_values: "msPerCell 20 = 50" "msPerCell 1 = 1000"
  by code_simp+

lemma COLS_half: "COLS div 2 = 6"
  by (simp add: COLS_def)

lemma collide_floor:
  "\<not> collide (createMatrix COLS ROWS) 4 18 [[0,3,0],[3,3,3],[0,0,0]]"
  "collide (createMatrix COLS ROWS) 4 19 [[0,3,0],[3,3,3],[0,0,0]]"
  "\<not> collide (createMatrix COLS ROWS) 5 18 [[0,3,0],[3,3,3],[0,0,0]]"
  "collide (createMatrix COLS ROWS) 5 19 [[0,3,0],[3,3,3],[0,0,0]]"
  "\<not> collide (createMatrix COLS ROWS) 5 0 [[2,2],[2,2]]"
  "collide (replicate 19 (replicate 12 0) @ [[7,7,7,7,0,0,0,7,7,7,7,7]]) 4 19
     [[0,3,0],[3,3,3],[0,0,0]]"
  by code_simp+

lemma merge_floor:
  "merge_rows (createMatrix COLS ROWS) 4 18 0 [[0,3,0],[3,3,3],[0,0,0]]
     = replicate 18 (replicate 12 0) @ [[0,0,0,0,0,3,0,0,0,0,0,0], [0,0,0,0,3,3,3,0,0,0,0,0]]"
  "merge_rows (createMatrix COLS ROWS) 5 (- 1) 0 [[2,2],[2,2]]
     = [0,0,0,0,0,2,2,0,0,0,0,0] # replicate 19 (replicate 12 0)"
  "merge_rows (replicate 19 (replicate 12 0) @ [[7,7,7,7,0,0,0,7,7,7,7,7]]) 4 18 0
       [[0,3,0],[3,3,3],[0,0,0]]
     = replicate 18 (replicate 12 0) @ [[0,0,0,0,0,3,0,0,0,0,0,0], [7,7,7,7,3,3,3,7,7,7,7,7]]"
  by code_simp+

lemma sweep_floor:
  "sweep_loop (replicate 18 (replicate 12 0)
                 @ [[0,0,0,0,0,3,0,0,0,0,0,0], [0,0,0,0,3,3,3,0,0,0,0,0]]) (int ROWS - 1) 0
     = Some (replicate 18 (replicate 12 0)
               @ [[0,0,0,0,0,3,0,0,0,0,0,0], [0,0,0,0,3,3,3,0,0,0,0,0]], 0)"
  "sweep_loop ([0,0,0,0,0,2,2,0,0,0,0,0] # replicate 19 (replicate 12 0)) (int ROWS - 1) 0
     = Some ([0,0,0,0,0,2,2,0,0,0,0,0] # replicate 19 (replicate 12 0), 0)"
  "sweep_loop (replicate 18 (replicate 12 0)
                 @ [[0,0,0,0,0,3,0,0,0,0,0,0], [7,7,7,7,3,3,3,7,7,7,7,7]]) (int ROWS - 1) 0
     = Some (replicate 19 (replicate 12 0) @ [[0,0,0,0,0,3,0,0,0,0,0,0]], 1)"
  by code_simp+

lemma line_score_one: "line_score (Suc 0) = 40"
  by code_simp

lemma frame_times:
  "double (frame_end - frame_start) = 500" "frame_end - frame_start < 500"
  "frame_start \<noteq> 0"
  by code_simp+

lemmas frame_eval = update_def Let_def falling_game_def resting_game_def locked_game_def
  gap_game_def held_game_def swapped_game_def drop_game_def initial_game_def
  gravity_loop.simps das_step_def lock_step_def lock_piece_def moveOnce_def mergeToArena_def
  sweep_def spawnPlayer_def refillQueue_def holdSwap_def kind_of_id_def
  LOCK_DELAY_def SOFT_DROP_MULT_def ARR_def double_int msPerCell_values COLS_half
  collide_floor merge_floor sweep_floor line_score_one frame_times

section \<open>Properties of the hard drop\<close>

lemma occupied_iff: "occupied m \<longleftrightarrow> (\<exists>y<length m. \<exists>x<length (m ! y). m ! y ! x \<noteq> 0)"
  by (simp add: occupied_def list_ex_length)

lemma collide_below:
  assumes "y < length m" "x < length (m ! y)" "m ! y ! x \<noteq> 0" "int ROWS \<le> int y + py"
  shows "collide a px py m"
  unfolding collide_cells using assms by blast

lemma drop_scan_spec:
  assumes "y < length m" "x < length (m ! y)" "m ! y ! x \<noteq> 0"
  shows "n = nat (int ROWS - int y - py - d0) \<Longrightarrow>
     \<exists>d. d0 \<le> d \<and> drop_scan a px py m d0 = Some d \<and> collide a px (py + d + 1) m \<and>
         (\<forall>k. d0 \<le> k \<and> k < d \<longrightarrow> \<not> collide a px (py + k + 1) m)"
proof (induction n arbitrary: d0)
  case 0
  then have "int ROWS \<le> int y + (py + d0 + 1)" by simp
  from collide_below [OF assms this] have c: "collide a px (py + d0 + 1) m" .
  then have "drop_scan a px py m d0 = Some d0"
    by (subst drop_scan.simps) simp
  with c show ?case by auto
next
  case (Suc n)
  show ?case
  proof (cases "collide a px (py + d0 + 1) m")
    case True
    then have "drop_scan a px py m d0 = Some d0"
      by (subst drop_scan.simps) simp
    with True show ?thesis by auto
  next
    case False
    then have st: "drop_scan a px py m d0 = drop_scan a px py m (d0 + 1)"
      by (subst drop_scan.simps) simp
    from Suc.prems have "n = nat (int ROWS - int y - py - (d0 + 1))" by simp
    from Suc.IH [OF this] obtain d where
      d: "d0 + 1 \<le> d" "drop_scan a px py m (d0 + 1) = Some d" "collide a px (py + d + 1) m"
        "\<forall>k. d0 + 1 \<le> k \<and> k < d \<longrightarrow> \<not> collide a px (py + k + 1) m"
      by blast
    have "\<not> collide a px (py + k + 1) m" if "d0 \<le> k" "k < d" for k
      using that d(4) False by (cases "k = d0") auto
    with d st show ?thesis
      by (intro exI [of _ d]) auto
  qed
qed

lemma sweep_wf:
  assumes "wf_arena (arena s)"
  shows "\<exists>s'. sweep s = Some s' \<and> wf_arena (arena s')"
proof -
  let ?n = "length (filter (\<lambda>r. 0 \<notin> set r) (arena s))"
  let ?a' = "replicate ?n (replicate COLS 0) @ filter (\<lambda>r. 0 \<in> set r) (arena s)"
  have "\<exists>s'. sweep s = Some s' \<and> arena s' = ?a'"
    unfolding sweep_def sweep_loop_wf [OF assms] by (simp add: Let_def)
  moreover have "length (filter (\<lambda>r. 0 \<notin> set r) (arena s)) + length (filter (\<lambda>r. 0 \<in> set r) (arena s))
      = length (arena s)"
    using sum_length_filter_compl [of "\<lambda>r. 0 \<notin> set r" "arena s"] by simp
  then have "wf_arena ?a'"
    using assms by (auto simp: wf_arena_def list_all_iff)
  ultimately show ?thesis by auto
qed

lemma sweep_queue: "sweep s = Some s' \<Longrightarrow> nextQueue s' = nextQueue s"
  by (auto simp: sweep_def Let_def split: option.splits prod.splits if_splits)

lemma lowest_occupied_props:
  assumes "occupied m"
  shows "lowest_occupied m < length m"
    and "\<exists>x<length (m ! lowest_occupied m). m ! lowest_occupied m ! x \<noteq> 0"
    and "\<And>y x. y < length m \<Longrightarrow> x < length (m ! y) \<Longrightarrow> m ! y ! x \<noteq> 0 \<Longrightarrow> y \<le> lowest_occupied m"
proof -
  let ?S = "set (filter (\<lambda>y. list_ex (\<lambda>v. v \<noteq> 0) (m ! y)) [0..<length m])"
  have S: "?S = {y. y < length m \<and> (\<exists>x<length (m ! y). m ! y ! x \<noteq> 0)}"
    by (auto simp: list_ex_length)
  have ne: "?S \<noteq> {}"
    using assms unfolding S occupied_iff by blast
  have L: "lowest_occupied m = Max ?S"
    by (simp only: lowest_occupied_def)
  have "Max ?S \<in> ?S"
    by (rule Max_in [OF _ ne]) simp
  then have "lowest_occupied m \<in> {y. y < length m \<and> (\<exists>x<length (m ! y). m ! y ! x \<noteq> 0)}"
    unfolding L S .
  then show "lowest_occupied m < length m"
    and "\<exists>x<length (m ! lowest_occupied m). m ! lowest_occupied m ! x \<noteq> 0"
    by blast+
  fix y x assume "y < length m" "x < length (m ! y)" "m ! y ! x \<noteq> 0"
  then have "y \<in> ?S" unfolding S by blast
  then have "y \<le> Max ?S" by (intro Max_ge) simp_all
  then show "y \<le> lowest_occupied m" by (simp only: lowest_occupied_def)
qed

lemma createMatrix_nth:
  "r < ROWS \<Longrightarrow> c < COLS \<Longrightarrow> createMatrix COLS ROWS ! r ! c = 0"
  by (simp add: createMatrix_def)

lemma collide_empty:
  assumes "occupied m"
    and "\<forall>y<length m. \<forall>x<length (m ! y). m ! y ! x \<noteq> 0 \<longrightarrow> 0 \<le> int x + px \<and> int x + px < int COLS"
  shows "collide (createMatrix COLS ROWS) px py m \<longleftrightarrow> int ROWS \<le> int (lowest_occupied m) + py"
proof
  assume "collide (createMatrix COLS ROWS) px py m"
  then obtain y x where c: "y < length m" "x < length (m ! y)" "m ! y ! x \<noteq> 0"
    and d: "int x + px < 0 \<or> int x + px \<ge> int COLS \<or> int y + py \<ge> int ROWS \<or>
         (int y + py \<ge> 0 \<and> createMatrix COLS ROWS ! nat (int y + py) ! nat (int x + px) \<noteq> 0)"
    unfolding collide_cells by blast
  from assms(2) c have h: "0 \<le> int x + px" "int x + px < int COLS" by auto
  have "int ROWS \<le> int y + py"
  proof (rule ccontr)
    assume n: "\<not> int ROWS \<le> int y + py"
    with d h have "int y + py \<ge> 0" "createMatrix COLS ROWS ! nat (int y + py) ! nat (int x + px) \<noteq> 0"
      by auto
    moreover have "nat (int y + py) < ROWS" "nat (int x + px) < COLS"
      using n h calculation(1) by linarith+
    ultimately show False by (simp add: createMatrix_nth)
  qed
  moreover have "y \<le> lowest_occupied m"
    using lowest_occupied_props(3) [OF assms(1) c] .
  ultimately show "int ROWS \<le> int (lowest_occupied m) + py" by linarith
next
  assume r: "int ROWS \<le> int (lowest_occupied m) + py"
  from lowest_occupied_props(1,2) [OF assms(1)] obtain x where
    "lowest_occupied m < length m" "x < length (m ! lowest_occupied m)"
    "m ! lowest_occupied m ! x \<noteq> 0"
    by blast
  from collide_below [OF this r] show "collide (createMatrix COLS ROWS) px py m" .
qed

text \<open>
  C5. With a piece in play whose shape has an occupied cell, and the game neither paused
  nor over, the scan of \<open>hardDrop\<close> stops at the first \<open>d \<ge> 0\<close> for which the piece
  collides \<open>d + 1\<close> rows further down, so no offset from \<open>1\<close> to \<open>d\<close> collides; the
  piece is moved down by \<open>d\<close> and merged and the arena is swept, in this order and
  whatever the lock timer and the ground flag are. On an empty board, a piece at row \<open>0\<close>
  whose occupied cells lie within the columns lands with its lowest occupied row on row
  \<open>19\<close>. Then comes the call of \<open>spawnPlayer\<close>, on the queue as it was before the drop:
  with the empty queue of the program it throws, so that \<open>hardDrop\<close> ends in the state
  after the sweep, with no piece spawned and the drop accumulator not reset.
\<close>

theorem hardDrop_lands:
  assumes "matrix s = Some m" and "occupied m" and "\<not> gameOver s" and "\<not> paused s"
    and "wf_arena (arena s)"
  shows "\<exists>d s1 s2. 0 \<le> d \<and> drop_scan (arena s) (pos_x s) (pos_y s) m 0 = Some d \<and>
      collide (arena s) (pos_x s) (pos_y s + d + 1) m \<and>
      (\<forall>k. 0 \<le> k \<and> k < d \<longrightarrow> \<not> collide (arena s) (pos_x s) (pos_y s + k + 1) m) \<and>
      mergeToArena (s\<lparr>pos_y := pos_y s + d\<rparr>) = Some s1 \<and> sweep s1 = Some s2 \<and>
      nextQueue s2 = nextQueue s \<and>
      hardDrop s = Some (case spawnPlayer s2 of
                           Raises s3 \<Rightarrow> Raises s3
                         | Returns s3 \<Rightarrow> Returns (s3\<lparr>dropAccumulator := 0\<rparr>)) \<and>
      (nextQueue s = [] \<longrightarrow> spawnPlayer s2 = Raises s2 \<and> hardDrop s = Some (Raises s2)) \<and>
      (arena s = createMatrix COLS ROWS \<and> pos_y s = 0 \<and> lowest_occupied m \<le> 19 \<and>
       (\<forall>y<length m. \<forall>x<length (m ! y). m ! y ! x \<noteq> 0 \<longrightarrow>
            0 \<le> int x + pos_x s \<and> int x + pos_x s < int COLS)
       \<longrightarrow> pos_y s + d = 19 - int (lowest_occupied m))"
proof -
  from assms(2) obtain y x where cell: "y < length m" "x < length (m ! y)" "m ! y ! x \<noteq> 0"
    unfolding occupied_iff by blast
  from drop_scan_spec [OF cell refl, where py = "pos_y s" and ?d0.0 = 0 and a = "arena s" and px = "pos_x s"] obtain d where
    d: "0 \<le> d" "drop_scan (arena s) (pos_x s) (pos_y s) m 0 = Some d"
      "collide (arena s) (pos_x s) (pos_y s + d + 1) m"
      "\<forall>k. 0 \<le> k \<and> k < d \<longrightarrow> \<not> collide (arena s) (pos_x s) (pos_y s + k + 1) m"
    by blast
  let ?s0 = "s\<lparr>pos_y := pos_y s + d\<rparr>"
  let ?s1 = "?s0\<lparr>arena := merge_rows (arena ?s0) (pos_x ?s0) (pos_y ?s0) 0 m\<rparr>"
  have m1: "mergeToArena ?s0 = Some ?s1"
    using assms(1) by (simp add: mergeToArena_def)
  have "wf_arena (arena ?s1)"
    using assms(5) by (simp add: merge_rows_wf)
  from sweep_wf [OF this] obtain s2 where s2: "sweep ?s1 = Some s2"
    by blast
  have q: "nextQueue s2 = nextQueue s"
    using sweep_queue [OF s2] by simp
  have hd: "hardDrop s = Some (case spawnPlayer s2 of
                           Raises s3 \<Rightarrow> Raises s3
                         | Returns s3 \<Rightarrow> Returns (s3\<lparr>dropAccumulator := 0\<rparr>))"
    using assms(1,3,4) d(2) m1 s2 by (simp add: hardDrop_def)
  have raise: "nextQueue s = [] \<longrightarrow> spawnPlayer s2 = Raises s2 \<and> hardDrop s = Some (Raises s2)"
    using q hd by (simp add: spawnPlayer_empty)
  have land: "pos_y s + d = 19 - int (lowest_occupied m)"
    if e: "arena s = createMatrix COLS ROWS" "pos_y s = 0" "lowest_occupied m \<le> 19"
      "\<forall>y<length m. \<forall>x<length (m ! y). m ! y ! x \<noteq> 0 \<longrightarrow>
            0 \<le> int x + pos_x s \<and> int x + pos_x s < int COLS"
  proof -
    note ce = collide_empty [OF assms(2) e(4)]
    from d(3) have "int ROWS \<le> int (lowest_occupied m) + (d + 1)"
      unfolding e(1,2) ce by simp
    then have ge: "19 - int (lowest_occupied m) \<le> d"
      by (simp add: ROWS_def)
    have "\<not> 19 - int (lowest_occupied m) < d"
    proof
      assume lt: "19 - int (lowest_occupied m) < d"
      let ?k = "19 - int (lowest_occupied m)"
      have "0 \<le> ?k" using e(3) by simp
      with lt d(4) have "\<not> collide (arena s) (pos_x s) (pos_y s + ?k + 1) m"
        by blast
      then show False
        unfolding e(1,2) ce by (simp add: ROWS_def)
    qed
    with ge show ?thesis using e(2) by simp
  qed
  have scen: "arena s = createMatrix COLS ROWS \<and> pos_y s = 0 \<and> lowest_occupied m \<le> 19 \<and>
       (\<forall>y<length m. \<forall>x<length (m ! y). m ! y ! x \<noteq> 0 \<longrightarrow>
            0 \<le> int x + pos_x s \<and> int x + pos_x s < int COLS)
       \<longrightarrow> pos_y s + d = 19 - int (lowest_occupied m)"
    using land by (intro impI) (elim conjE)
  show ?thesis
    by (intro exI [of _ d] exI [of _ ?s1] exI [of _ s2] conjI)
      (fact d m1 s2 q hd raise scen)+
qed

theorem hardDrop_lands_witness:
  "matrix drop_game = Some [[0,3,0],[3,3,3],[0,0,0]] \<and> occupied [[0,3,0],[3,3,3],[0,0,0]] \<and>
   \<not> gameOver drop_game \<and> \<not> paused drop_game \<and> wf_arena (arena drop_game) \<and>
   lowest_occupied [[0,3,0],[3,3,3],[0,0,0]] = 1 \<and> nextQueue drop_game = [] \<and>
   drop_scan (arena drop_game) (pos_x drop_game) (pos_y drop_game)
       [[0,3,0],[3,3,3],[0,0,0]] 0 = Some 18 \<and>
   mergeToArena (drop_game\<lparr>pos_y := 18\<rparr>) = Some dropped_game \<and>
   sweep dropped_game = Some dropped_game \<and>
   spawnPlayer dropped_game = Raises dropped_game \<and>
   hardDrop drop_game = Some (Raises dropped_game)"
proof -
  let ?m = "[[0,3,0],[3,3,3],[0,0,0]] :: grid"
  have h1: "matrix drop_game = Some ?m" by (simp add: drop_game_def)
  have h2: "occupied ?m" by (simp add: occupied_def)
  have h3: "\<not> gameOver drop_game" "\<not> paused drop_game"
    by (simp_all add: drop_game_def initial_game_def)
  have h4: "wf_arena (arena drop_game)"
    by (simp add: drop_game_def wf_initial)
  have low: "lowest_occupied ?m = 1" by code_simp
  have e: "arena drop_game = createMatrix COLS ROWS" "pos_y drop_game = 0" "pos_x drop_game = 4"
    and q: "nextQueue drop_game = []"
    by (simp_all add: drop_game_def initial_game_def)
  have inb: "\<forall>y<length ?m. \<forall>x<length (?m ! y). ?m ! y ! x \<noteq> 0 \<longrightarrow>
            0 \<le> int x + pos_x drop_game \<and> int x + pos_x drop_game < int COLS"
    unfolding e by (auto simp: COLS_def nth_Cons' less_Suc_eq numeral_3_eq_3)
  from hardDrop_lands [OF h1 h2 h3 h4] obtain d s1 s2 where
    r: "drop_scan (arena drop_game) (pos_x drop_game) (pos_y drop_game) ?m 0 = Some d"
      "mergeToArena (drop_game\<lparr>pos_y := pos_y drop_game + d\<rparr>) = Some s1" "sweep s1 = Some s2"
    and ra: "nextQueue drop_game = [] \<longrightarrow>
               spawnPlayer s2 = Raises s2 \<and> hardDrop drop_game = Some (Raises s2)"
    and sc: "arena drop_game = createMatrix COLS ROWS \<and> pos_y drop_game = 0 \<and>
       lowest_occupied ?m \<le> 19 \<and>
       (\<forall>y<length ?m. \<forall>x<length (?m ! y). ?m ! y ! x \<noteq> 0 \<longrightarrow>
            0 \<le> int x + pos_x drop_game \<and> int x + pos_x drop_game < int COLS)
       \<longrightarrow> pos_y drop_game + d = 19 - int (lowest_occupied ?m)"
    by blast
  from sc e(1,2) low inb have "pos_y drop_game + d = 19 - int (lowest_occupied ?m)"
    by simp
  then have d: "d = 18" unfolding low e(2) by simp
  have m: "mergeToArena (drop_game\<lparr>pos_y := 18\<rparr>) = Some dropped_game"
    by (simp add: frame_eval dropped_game_def del: merge_rows.simps)
  have sw: "sweep dropped_game = Some dropped_game"
    by (simp add: frame_eval dropped_game_def)
  from r(2) m have s1: "s1 = dropped_game"
    unfolding d e(2) by simp
  from r(3) sw have s2: "s2 = dropped_game"
    unfolding s1 by simp
  from ra q have sp: "spawnPlayer dropped_game = Raises dropped_game"
    and hd: "hardDrop drop_game = Some (Raises dropped_game)"
    unfolding s2 by simp_all
  from r(1) have sc': "drop_scan (arena drop_game) (pos_x drop_game) (pos_y drop_game) ?m 0 = Some 18"
    unfolding d .
  show ?thesis
    by (intro conjI) (fact h1 h2 h3 h4 low q sc' m sw sp hd)+
qed

section \<open>Properties of the lock delay\<close>

text \<open>
  Rounding as the source does it: the doubles nearest to \<open>700.3\<close> and
  \<open>200.29999999999998\<close> differ by less than \<open>500\<close>, and their difference as the source
  computes it is exactly \<open>500\<close>, so that a piece on the ground is locked by the frame
  between these two times; with \<open>gravityCPS = 7\<close> a frame of \<open>1000\<close> ms moves a piece six
  rows down, not seven.
\<close>

lemma double_examples:
  "double (double (7003 / 10) - double (20029999999999998 / 100000000000000)) = 500"
  "double (7003 / 10) - double (20029999999999998 / 100000000000000) < 500"
  "double (1 / 10) = 3602879701896397 / 36028797018963968"
  by code_simp+

lemma frame_rounding:
  "update (resting_game\<lparr>soft := False, lockTimer := 0, lastTime := frame_start\<rparr>)
       frame_end frame_end
     = Some (Raises (locked_game\<lparr>soft := False, dropAccumulator := 500,
                                 lastTime := frame_end\<rparr>))"
  by (simp add: frame_eval del: merge_rows.simps)

lemma gravity_seven_rows:
  "(case update (falling_game\<lparr>pos_y := 0, soft := False, gravityCPS := 7\<rparr>) 2000 2000 of
      Some (Returns s) \<Rightarrow> pos_y s = 6 \<and> \<not> onGround s
    | _ \<Rightarrow> False)"
  by code_simp

text \<open>
  The lock-delay block in every state: below the threshold it stores the counter and
  returns; at the threshold it calls \<open>lock_piece\<close>, which on the empty queue throws.
\<close>

lemma lock_piece_raises: "nextQueue s = [] \<Longrightarrow> \<exists>t. lock_piece s = Raises t"
  by (auto simp: lock_piece_def mergeToArena_def spawnPlayer_empty dest: sweep_queue
      split: option.splits)

lemma lock_step_below:
  "onGround s \<Longrightarrow> double (lockTimer s + delta) < LOCK_DELAY \<Longrightarrow>
     lock_step s delta = Returns (s\<lparr>lockTimer := double (lockTimer s + delta)\<rparr>)"
  by (simp add: lock_step_def Let_def)

lemma lock_step_raises:
  "onGround s \<Longrightarrow> LOCK_DELAY \<le> double (lockTimer s + delta) \<Longrightarrow> nextQueue s = [] \<Longrightarrow>
     \<exists>t. lock_step s delta = Raises t"
  using lock_piece_raises [of "s\<lparr>lockTimer := double (lockTimer s + delta)\<rparr>"]
  by (simp add: lock_step_def Let_def)

text \<open>
  C3, on a run of frames \<open>50\<close> ms apart with the soft drop held (\<open>50\<close> ms per cell): a T
  piece one row above the floor, with an empty queue as the program has it. The second
  frame finds the floor and starts the counter, which the lock-delay block of the same
  frame raises to \<open>50\<close>; after ten frames the piece rests with the counter at \<open>450\<close> and
  is not locked. From there a successful \<open>moveOnce\<close>, called for a key or by the
  auto-repeat of the frame step, sets the counter to \<open>0\<close>, and the next frame does not
  lock. Without a move the eleventh frame brings the counter to \<open>500\<close>: the piece is
  merged, the board is swept (on the board with the gap under the piece a row is cleared
  and scored), and then \<open>spawnPlayer\<close> throws. The frame ends there: no piece is
  spawned, the counter, the ground flag and the drop accumulator are not reset, and no
  further frame is requested.
\<close>

theorem lock_delay:
  "run_frames falling_game [(1050, 1050), (1100, 1100)]
     = Some (Returns (falling_game\<lparr>pos_y := 18, onGround := True, lockTimer := 50,
                                    lastTime := 1100\<rparr>)) \<and>
   run_frames falling_game
       [(1050, 1050), (1100, 1100), (1150, 1150), (1200, 1200), (1250, 1250), (1300, 1300),
        (1350, 1350), (1400, 1400), (1450, 1450), (1500, 1500)]
     = Some (Returns resting_game) \<and>
   moveOnce resting_game 1 = resting_game\<lparr>pos_x := 5, lockTimer := 0, onGround := False\<rparr> \<and>
   update (moveOnce resting_game 1) 1550 1550
     = Some (Returns (resting_game\<lparr>pos_x := 5, lockTimer := 50, lastTime := 1550\<rparr>)) \<and>
   update (resting_game\<lparr>das_right := True, das_nextMoveAt := 1520\<rparr>) 1550 1550
     = Some (Returns (resting_game\<lparr>das_right := True, das_nextMoveAt := 1610, pos_x := 5,
                        lockTimer := 0, onGround := False, lastTime := 1550\<rparr>)) \<and>
   update resting_game 1550 1550 = Some (Raises locked_game) \<and>
   run_frames falling_game
       [(1050, 1050), (1100, 1100), (1150, 1150), (1200, 1200), (1250, 1250), (1300, 1300),
        (1350, 1350), (1400, 1400), (1450, 1450), (1500, 1500), (1550, 1550)]
     = Some (Raises locked_game) \<and>
   spawnPlayer locked_game = Raises locked_game \<and>
   update gap_game 1550 1550
     = Some (Raises (gap_game\<lparr>lockTimer := 500, lastTime := 1550, score := 40, lines := 1,
                       highscore := 40,
                       arena := replicate 19 (replicate 12 0)
                                @ [[0,0,0,0,0,3,0,0,0,0,0,0]]\<rparr>))"
proof -
  have 1: "run_frames falling_game [(1050, 1050), (1100, 1100)]
     = Some (Returns (falling_game\<lparr>pos_y := 18, onGround := True, lockTimer := 50,
                                    lastTime := 1100\<rparr>))"
    by (simp add: frame_eval del: merge_rows.simps)
  have 2: "run_frames falling_game
       [(1050, 1050), (1100, 1100), (1150, 1150), (1200, 1200), (1250, 1250), (1300, 1300),
        (1350, 1350), (1400, 1400), (1450, 1450), (1500, 1500)]
     = Some (Returns resting_game)"
    by (simp add: frame_eval del: merge_rows.simps)
  have 3: "moveOnce resting_game 1 = resting_game\<lparr>pos_x := 5, lockTimer := 0, onGround := False\<rparr>"
    by (simp add: frame_eval del: merge_rows.simps)
  have 4: "update (moveOnce resting_game 1) 1550 1550
     = Some (Returns (resting_game\<lparr>pos_x := 5, lockTimer := 50, lastTime := 1550\<rparr>))"
    by (simp add: frame_eval del: merge_rows.simps)
  have 5: "update (resting_game\<lparr>das_right := True, das_nextMoveAt := 1520\<rparr>) 1550 1550
     = Some (Returns (resting_game\<lparr>das_right := True, das_nextMoveAt := 1610, pos_x := 5,
                        lockTimer := 0, onGround := False, lastTime := 1550\<rparr>))"
    by (simp add: frame_eval del: merge_rows.simps)
  have 6: "update resting_game 1550 1550 = Some (Raises locked_game)"
    by (simp add: frame_eval del: merge_rows.simps)
  have 7: "run_frames falling_game
       [(1050, 1050), (1100, 1100), (1150, 1150), (1200, 1200), (1250, 1250), (1300, 1300),
        (1350, 1350), (1400, 1400), (1450, 1450), (1500, 1500), (1550, 1550)]
     = Some (Raises locked_game)"
    by (simp add: frame_eval del: merge_rows.simps)
  have 8: "spawnPlayer locked_game = Raises locked_game"
    by (simp add: frame_eval del: merge_rows.simps)
  have 9: "update gap_game 1550 1550
     = Some (Raises (gap_game\<lparr>lockTimer := 500, lastTime := 1550, score := 40, lines := 1,
                       highscore := 40,
                       arena := replicate 19 (replicate 12 0)
                                @ [[0,0,0,0,0,3,0,0,0,0,0,0]]\<rparr>))"
    by (simp add: frame_eval del: merge_rows.simps)
  show ?thesis
    by (intro conjI) (fact 1 2 3 4 5 6 7 8 9)+
qed

text \<open>
  The counter is not tied to the piece. \<open>holdSwap\<close> with a kind in hold puts the held
  piece at the spawn position and keeps the lock timer and the ground flag of the piece
  it replaces. Here an O piece comes in above an empty board with the counter at \<open>450\<close>
  and the flag set; the next frame, \<open>50\<close> ms later and without a gravity step, runs the
  lock: the piece is merged where it is, at the top of the board with nothing below it.
\<close>

lemma holdSwap_keeps_timer:
  "holdSwap held_game = Returns swapped_game"
  "onGround swapped_game" "lockTimer swapped_game = 450" "pos_y swapped_game = - 1"
  "\<not> collide (arena swapped_game) (pos_x swapped_game) (pos_y swapped_game + 1) [[2,2],[2,2]]"
  "update swapped_game 1550 1550
     = Some (Raises (swapped_game\<lparr>lockTimer := 500, dropAccumulator := 50, lastTime := 1550,
                       arena := [0,0,0,0,0,2,2,0,0,0,0,0] # replicate 19 (replicate 12 0)\<rparr>))"
  by (simp_all add: frame_eval del: merge_rows.simps)

section \<open>Properties of collision in the older files\<close>

text \<open>
  On an arena of the regular dimensions and for a piece that is not above the board, the
  older \<open>collide\<close> gives the same answer as the one above; above the board it reports a
  collision where the newer one does not.
\<close>

lemma collide_script_row_iff:
  "collide_script_row a ox oy y x0 vs \<longleftrightarrow>
     (\<exists>i<length vs. vs ! i \<noteq> 0 \<and> blocked_script a (int y + oy) (int (x0 + i) + ox))"
proof (induction vs arbitrary: x0)
  case Nil
  show ?case by simp
next
  case (Cons v vs)
  show ?case
    unfolding collide_script_row.simps Cons.IH [of "Suc x0"] length_Cons Ex_less_Suc2
    by (auto simp: ac_simps)
qed

lemma collide_script_iff:
  "collide_script a ox oy m \<longleftrightarrow>
     (\<exists>y<length m. \<exists>x<length (m ! y). m ! y ! x \<noteq> 0 \<and>
        blocked_script a (int y + oy) (int x + ox))"
proof -
  have "collide_script_rows a ox oy y0 rs \<longleftrightarrow>
     (\<exists>j<length rs. \<exists>i<length (rs ! j). rs ! j ! i \<noteq> 0 \<and>
        blocked_script a (int (y0 + j) + oy) (int i + ox))" for y0 rs
  proof (induction rs arbitrary: y0)
    case Nil
    show ?case by simp
  next
    case (Cons r rs)
    show ?case
      unfolding collide_script_rows.simps Cons.IH [of "Suc y0"] collide_script_row_iff
        length_Cons Ex_less_Suc2
      by (auto simp: ac_simps)
  qed
  from this [of 0 m] show ?thesis by (simp add: collide_script_def)
qed

lemma blocked_script_wf:
  assumes "wf_arena a" and "0 \<le> r"
  shows "blocked_script a r c \<longleftrightarrow>
     (c < 0 \<or> c \<ge> int COLS \<or> r \<ge> int ROWS \<or> (r \<ge> 0 \<and> a ! nat r ! nat c \<noteq> 0))"
proof (cases "nat r < length a")
  case True
  then have "length (a ! nat r) = COLS" "length a = ROWS"
    using assms(1) by (simp_all add: wf_arena_def list_all_length)
  then show ?thesis
    using True assms(2) by (auto simp: blocked_script_def)
next
  case False
  then show ?thesis
    using assms by (auto simp: blocked_script_def wf_arena_def)
qed

lemma collide_script_agrees:
  assumes "wf_arena a" and "0 \<le> oy"
  shows "collide_script a ox oy m = collide a ox oy m"
proof -
  have "blocked_script a (int y + oy) c \<longleftrightarrow>
     (c < 0 \<or> c \<ge> int COLS \<or> int y + oy \<ge> int ROWS \<or>
      (int y + oy \<ge> 0 \<and> a ! nat (int y + oy) ! nat c \<noteq> 0))" for y c
    using assms by (intro blocked_script_wf) simp_all
  then show ?thesis
    unfolding collide_script_iff collide_cells by simp
qed

lemma collide_script_above:
  "collide_script (createMatrix COLS ROWS) 4 (- 1) [[0,3,0],[3,3,3],[0,0,0]] \<and>
   \<not> collide (createMatrix COLS ROWS) 4 (- 1) [[0,3,0],[3,3,3],[0,0,0]]"
  by code_simp

end
